theory Spec2Isabelle
  imports Main "HOL-Library.Sublist"
begin

section \<open>HAMCAL: event model, time window and duration formatting\<close>

text \<open>
  The source works with timezone-aware \<open>datetime\<close> values that every parser normalises to
  UTC. Such a value is determined by its instant, and Python compares and subtracts aware
  values by instant, so a datetime is modelled as the number of microseconds (Python's
  resolution) since 0001-01-01T00:00:00 UTC, and a \<open>timedelta\<close> as a number of
  microseconds. Strings are lists of 8-bit characters; the text handled by the source is
  modelled on the ASCII range.
\<close>

type_synonym instant = int
type_synonym timedelta = int

definition usec_per_second :: int where
  "usec_per_second = 1000000"

definition usec_per_day :: int where
  "usec_per_day = 86400 * usec_per_second"

definition timedelta_days :: "int \<Rightarrow> timedelta" where
  "timedelta_days n = n * usec_per_day"

definition timedelta_hours :: "int \<Rightarrow> timedelta" where
  "timedelta_hours n = n * 3600 * usec_per_second"

definition timedelta_minutes :: "int \<Rightarrow> timedelta" where
  "timedelta_minutes n = n * 60 * usec_per_second"

definition timedelta_weeks :: "int \<Rightarrow> timedelta" where
  "timedelta_weeks n = timedelta_days (7 * n)"

text \<open>\<open>HORIZON_END_UTC = NOW_UTC + timedelta(days=62)\<close>; \<open>NOW_UTC\<close> is captured once per
  run and is a parameter of everything that reads it.\<close>

definition HORIZON_END_UTC :: "instant \<Rightarrow> instant" where
  "HORIZON_END_UTC now = now + timedelta_days 62"

record Event =
  title :: string
  start :: instant
  endt :: instant
  url :: "string option"
  description :: "string option"
  categories :: "string list"
  source :: string

definition is_in_window :: "instant \<Rightarrow> Event \<Rightarrow> bool" where
  "is_in_window now e \<longleftrightarrow> endt e > now \<and> start e < HORIZON_END_UTC now"

definition add_category :: "string \<Rightarrow> Event \<Rightarrow> Event" where
  "add_category c e = (if c \<notin> set (categories e) then e\<lparr>categories := categories e @ [c]\<rparr> else e)"

subsection \<open>Decimal rendering of integers and joining of strings\<close>

definition digit_char :: "nat \<Rightarrow> char" where
  "digit_char n = ''0123456789'' ! n"

fun str_nat :: "nat \<Rightarrow> string" where
  "str_nat n = (if n < 10 then [digit_char n] else str_nat (n div 10) @ [digit_char (n mod 10)])"

declare str_nat.simps [simp del]

definition str_int :: "int \<Rightarrow> string" where
  "str_int i = (if i < 0 then CHR ''-'' # str_nat (nat (- i)) else str_nat (nat i))"

fun join :: "string \<Rightarrow> string list \<Rightarrow> string" where
  "join sep [] = []"
| "join sep [x] = x"
| "join sep (x # y # ys) = x @ sep @ join sep (y # ys)"

subsection \<open>Duration formatting\<close>

text \<open>
  \<open>int(delta.total_seconds())\<close> divides the span in microseconds by \<open>10**6\<close> with Python's
  true division of integers, whose result is the double nearest to the quotient (ties to
  the even mantissa), and truncates that double towards zero. For a positive quotient below
  \<open>2^53\<close>, which every \<open>timedelta\<close> gives, the double is \<open>m / 2^s\<close>, where \<open>s\<close> is the least
  shift that brings the quotient to at least \<open>2^52\<close> and \<open>m\<close> is the shifted quotient rounded
  to an integer.
\<close>

definition round_half_even :: "int \<Rightarrow> int \<Rightarrow> int" where
  "round_half_even n d =
     (let q = n div d; r = n mod d
      in if 2 * r < d then q
         else if 2 * r > d then q + 1
         else if even q then q else q + 1)"

function mantissa_shift :: "int \<Rightarrow> int \<Rightarrow> nat \<Rightarrow> nat" where
  "mantissa_shift a b s =
     (if 0 < a \<and> a * 2 ^ s < 2 ^ 52 * b then mantissa_shift a b (Suc s) else s)"
  by pat_completeness auto
termination
  by (relation "measure (\<lambda>(a, b, s). nat (2 ^ 52 * b - a * 2 ^ s))") auto

declare mantissa_shift.simps [simp del]

definition true_divide_trunc :: "int \<Rightarrow> int \<Rightarrow> int" where
  "true_divide_trunc a b =
     (let s = mantissa_shift a b 0;
          m = round_half_even (a * 2 ^ s) b
      in m div 2 ^ s)"

definition total_seconds_int :: "timedelta \<Rightarrow> int" where
  "total_seconds_int delta =
     (if delta < 0 then - true_divide_trunc (- delta) usec_per_second
      else true_divide_trunc delta usec_per_second)"

definition fmt_duration :: "instant \<Rightarrow> instant \<Rightarrow> string" where
  "fmt_duration start_utc end_utc =
     (let delta = end_utc - start_utc;
          total_seconds = total_seconds_int delta
      in if total_seconds \<le> 0 then ''0m''
         else
           let mins0 = total_seconds div 60;
               days = mins0 div (60 * 24);
               mins1 = mins0 mod (60 * 24);
               hours = mins1 div 60;
               mins = mins1 mod 60;
               parts0 = [];
               parts1 = (if days \<noteq> 0 then parts0 @ [str_int days @ ''d''] else parts0);
               parts2 = (if hours \<noteq> 0 then parts1 @ [str_int hours @ ''h''] else parts1);
               parts3 = (if mins \<noteq> 0 \<or> parts2 = [] then parts2 @ [str_int mins @ ''m''] else parts2)
           in join '' '' parts3)"

section \<open>Calendar dates\<close>

text \<open>
  The arithmetic of Python's \<open>datetime\<close> module on proleptic Gregorian dates: a \<open>date\<close>
  holds a year, a month and a day, its ordinal counts days from 0001-01-01 (ordinal 1), and
  adding a \<open>timedelta\<close> goes through the ordinal. Constructing a date outside the calendar
  raises \<open>ValueError\<close>, and leaving the range of ordinals raises \<open>OverflowError\<close>.
\<close>

datatype error = ValueError | OverflowError | ParserError

record date =
  year :: int
  month :: int
  day :: int

definition MINYEAR :: int where "MINYEAR = 1"
definition MAXYEAR :: int where "MAXYEAR = 9999"
definition MAXORDINAL :: int where "MAXORDINAL = 3652059"

definition DAYS_IN_MONTH :: "int list" where
  "DAYS_IN_MONTH = [-1, 31, 28, 31, 30, 31, 30, 31, 31, 30, 31, 30, 31]"

definition DAYS_BEFORE_MONTH :: "int list" where
  "DAYS_BEFORE_MONTH = [-1, 0, 31, 59, 90, 120, 151, 181, 212, 243, 273, 304, 334]"

definition is_leap :: "int \<Rightarrow> bool" where
  "is_leap y \<longleftrightarrow> y mod 4 = 0 \<and> (y mod 100 \<noteq> 0 \<or> y mod 400 = 0)"

definition days_before_year :: "int \<Rightarrow> int" where
  "days_before_year y = (let y1 = y - 1 in y1 * 365 + y1 div 4 - y1 div 100 + y1 div 400)"

definition days_in_month :: "int \<Rightarrow> int \<Rightarrow> int" where
  "days_in_month y m = (if m = 2 \<and> is_leap y then 29 else DAYS_IN_MONTH ! nat m)"

definition days_before_month :: "int \<Rightarrow> int \<Rightarrow> int" where
  "days_before_month y m = DAYS_BEFORE_MONTH ! nat m + (if m > 2 \<and> is_leap y then 1 else 0)"

definition ymd2ord :: "int \<Rightarrow> int \<Rightarrow> int \<Rightarrow> int" where
  "ymd2ord y m d = days_before_year y + days_before_month y m + d"

definition ord2ymd :: "int \<Rightarrow> date" where
  "ord2ymd n0 =
     (let n = n0 - 1;
          n400 = n div 146097; n = n mod 146097;
          y = n400 * 400 + 1;
          n100 = n div 36524; n = n mod 36524;
          n4 = n div 1461; n = n mod 1461;
          n1 = n div 365; n = n mod 365;
          y = y + n100 * 100 + n4 * 4 + n1
      in if n1 = 4 \<or> n100 = 4 then \<lparr>year = y - 1, month = 12, day = 31\<rparr>
         else
           let leapyear = (n1 = 3 \<and> (n4 \<noteq> 24 \<or> n100 = 3));
               m = (n + 50) div 32;
               preceding = DAYS_BEFORE_MONTH ! nat m + (if m > 2 \<and> leapyear then 1 else 0)
           in if preceding > n
              then let m' = m - 1;
                       preceding' = preceding
                          - (DAYS_IN_MONTH ! nat m' + (if m' = 2 \<and> leapyear then 1 else 0))
                   in \<lparr>year = y, month = m', day = n - preceding' + 1\<rparr>
              else \<lparr>year = y, month = m, day = n - preceding + 1\<rparr>)"

text \<open>\<open>date(year, month, day)\<close> with the constructor's range checks.\<close>

definition mk_date :: "int \<Rightarrow> int \<Rightarrow> int \<Rightarrow> error + date" where
  "mk_date y m d =
     (if \<not> (MINYEAR \<le> y \<and> y \<le> MAXYEAR) then Inl ValueError
      else if \<not> (1 \<le> m \<and> m \<le> 12) then Inl ValueError
      else if \<not> (1 \<le> d \<and> d \<le> days_in_month y m) then Inl ValueError
      else Inr \<lparr>year = y, month = m, day = d\<rparr>)"

definition toordinal :: "date \<Rightarrow> int" where
  "toordinal d = ymd2ord (year d) (month d) (day d)"

definition weekday :: "date \<Rightarrow> int" where
  "weekday d = (toordinal d + 6) mod 7"

definition replace_day :: "date \<Rightarrow> int \<Rightarrow> error + date" where
  "replace_day d n = mk_date (year d) (month d) n"

definition date_add_days :: "date \<Rightarrow> int \<Rightarrow> error + date" where
  "date_add_days d n =
     (let ordinal = toordinal d + n
      in if 0 < ordinal \<and> ordinal \<le> MAXORDINAL then Inr (ord2ymd ordinal) else Inl OverflowError)"

text \<open>\<open>datetime(y, m, d, 0, 0, tzinfo=timezone.utc)\<close> for a date that has passed the
  constructor's checks, and the calendar fields of an instant.\<close>

definition utc_midnight :: "date \<Rightarrow> instant" where
  "utc_midnight d = (toordinal d - 1) * usec_per_day"

definition date_of :: "instant \<Rightarrow> date" where
  "date_of t = ord2ymd (t div usec_per_day + 1)"

definition hour_of :: "instant \<Rightarrow> int" where
  "hour_of t = (t mod usec_per_day) div (3600 * usec_per_second)"

definition minute_of :: "instant \<Rightarrow> int" where
  "minute_of t = (t mod (3600 * usec_per_second)) div (60 * usec_per_second)"

definition second_of :: "instant \<Rightarrow> int" where
  "second_of t = (t mod (60 * usec_per_second)) div usec_per_second"

definition microsecond_of :: "instant \<Rightarrow> int" where
  "microsecond_of t = t mod usec_per_second"

definition zpad :: "nat \<Rightarrow> int \<Rightarrow> string" where
  "zpad w i = (let s = str_int i in replicate (w - length s) CHR ''0'' @ s)"

text \<open>\<open>isoformat()\<close> of an aware UTC value: the microseconds appear only when they are not
  zero, and the offset is always \<open>+00:00\<close>.\<close>

definition isoformat :: "instant \<Rightarrow> string" where
  "isoformat t =
     (let d = date_of t
      in zpad 4 (year d) @ ''-'' @ zpad 2 (month d) @ ''-'' @ zpad 2 (day d) @ ''T''
         @ zpad 2 (hour_of t) @ '':'' @ zpad 2 (minute_of t) @ '':'' @ zpad 2 (second_of t)
         @ (if microsecond_of t \<noteq> 0 then ''.'' @ zpad 6 (microsecond_of t) else [])
         @ ''+00:00'')"

text \<open>\<open>dt.astimezone(timezone.utc).strftime("%Y%m%dT%H%M%SZ")\<close>. The C library writes
  \<open>%Y\<close>; on Linux it is the year without padding, so a year below 1000 has fewer than four
  digits.\<close>

definition dt_to_ics :: "instant \<Rightarrow> string" where
  "dt_to_ics t =
     (let d = date_of t
      in str_int (year d) @ zpad 2 (month d) @ zpad 2 (day d) @ ''T''
         @ zpad 2 (hour_of t) @ zpad 2 (minute_of t) @ zpad 2 (second_of t) @ ''Z'')"

section \<open>The Field Day rule\<close>

text \<open>
  \<open>fourth_full_weekend_saturday_of_june\<close> walks from June 1 to the first Saturday, one
  \<open>replace(day=d.day + 1)\<close> at a time, and adds three weeks. The walk ends at a Saturday or
  with the \<open>ValueError\<close> of a day beyond the month.
\<close>

function first_saturday_from :: "date \<Rightarrow> error + date" where
  "first_saturday_from d =
     (if weekday d \<noteq> 5
      then (case replace_day d (day d + 1) of
              Inl e \<Rightarrow> Inl e
            | Inr d' \<Rightarrow> first_saturday_from d')
      else Inr d)"
  by pat_completeness auto

termination
proof (relation "measure (\<lambda>d. nat (days_in_month (year d) (month d) - day d))")
  show "wf (measure (\<lambda>d. nat (days_in_month (year d) (month d) - day d)))"
    by simp
next
  fix d d'
  assume "replace_day d (day d + 1) = Inr d'"
  then show "(d', d) \<in> measure (\<lambda>d. nat (days_in_month (year d) (month d) - day d))"
    by (auto simp: replace_day_def mk_date_def split: if_splits)
qed

declare first_saturday_from.simps [simp del]

definition fourth_full_weekend_saturday_of_june :: "int \<Rightarrow> error + date" where
  "fourth_full_weekend_saturday_of_june yr =
     (case mk_date yr 6 1 of
        Inl e \<Rightarrow> Inl e
      | Inr d0 \<Rightarrow>
          (case first_saturday_from d0 of
             Inl e \<Rightarrow> Inl e
           | Inr d \<Rightarrow> date_add_days d (7 * 3)))"

definition dt_add :: "instant \<Rightarrow> timedelta \<Rightarrow> error + instant" where
  "dt_add t delta =
     (let r = t + delta
      in if 0 \<le> r \<and> r < MAXORDINAL * usec_per_day then Inr r else Inl OverflowError)"

section \<open>Keyword tagging\<close>

definition DIGITAL_KEYWORDS :: "string list" where
  "DIGITAL_KEYWORDS =
     [''RTTY'', ''FT8'', ''FT4'', ''PSK'', ''DIGI'', ''DIGITAL'', ''SSTV'', ''JS8'', ''MFSK'']"

definition PHONE_KEYWORDS :: "string list" where
  "PHONE_KEYWORDS = [''SSB'', ''PHONE'', ''AM'', ''FM'']"

definition CW_KEYWORDS :: "string list" where
  "CW_KEYWORDS = [''CW'']"

definition FIELD_DAY_KEYWORDS :: "string list" where
  "FIELD_DAY_KEYWORDS = [''FIELD DAY'']"

text \<open>\<open>str.upper()\<close> on ASCII text: the letters a to z go to A to Z, every other character
  stays.\<close>

definition upper_char :: "char \<Rightarrow> char" where
  "upper_char c =
     (case map_of (zip ''abcdefghijklmnopqrstuvwxyz'' ''ABCDEFGHIJKLMNOPQRSTUVWXYZ'') c of
        Some u \<Rightarrow> u
      | None \<Rightarrow> c)"

definition upper :: "string \<Rightarrow> string" where
  "upper s = map upper_char s"

text \<open>\<open>s.startswith(p)\<close> and the substring test \<open>k in s\<close>.\<close>

fun startswith :: "string \<Rightarrow> string \<Rightarrow> bool" where
  "startswith s [] = True"
| "startswith [] (p # ps) = False"
| "startswith (c # cs) (p # ps) = (c = p \<and> startswith cs ps)"

fun contains :: "string \<Rightarrow> string \<Rightarrow> bool" where
  "contains [] k = (k = [])"
| "contains (c # cs) k = (startswith (c # cs) k \<or> contains cs k)"

definition or_empty :: "string option \<Rightarrow> string" where
  "or_empty v = (case v of None \<Rightarrow> [] | Some s \<Rightarrow> s)"

definition blob_of :: "Event \<Rightarrow> string" where
  "blob_of e = upper (title e @ '' '' @ or_empty (description e))"

definition tag_modes :: "Event \<Rightarrow> Event" where
  "tag_modes e =
     (let blob = blob_of e;
          e1 = (if list_ex (contains blob) CW_KEYWORDS then add_category ''cw'' e else e);
          e2 = (if list_ex (contains blob) PHONE_KEYWORDS then add_category ''phone'' e1 else e1);
          e3 = (if list_ex (contains blob) DIGITAL_KEYWORDS then add_category ''digital'' e2 else e2)
      in e3)"

definition tag_field_day :: "Event \<Rightarrow> Event" where
  "tag_field_day e =
     (let blob = blob_of e
      in if list_ex (contains blob) FIELD_DAY_KEYWORDS then add_category ''field-day'' e else e)"

text \<open>The event constructor with the defaults of the dataclass.\<close>

definition mk_event :: "string \<Rightarrow> instant \<Rightarrow> instant \<Rightarrow> string option \<Rightarrow> string option \<Rightarrow> string \<Rightarrow> Event" where
  "mk_event t s e u d src =
     \<lparr>title = t, start = s, endt = e, url = u, description = d, categories = [], source = src\<rparr>"

subsection \<open>Field Day events\<close>

definition field_day_event :: "int \<Rightarrow> error + Event" where
  "field_day_event yr =
     (case fourth_full_weekend_saturday_of_june yr of
        Inl err \<Rightarrow> Inl err
      | Inr fd_start_date \<Rightarrow>
          (case mk_date (year fd_start_date) (month fd_start_date) (day fd_start_date) of
             Inl err \<Rightarrow> Inl err
           | Inr d \<Rightarrow>
               let start = utc_midnight d
               in (case dt_add start (timedelta_days 2) of
                     Inl err \<Rightarrow> Inl err
                   | Inr end \<Rightarrow>
                       Inr (tag_field_day (add_category ''field-day''
                              (mk_event ''ARRL Field Day'' start end
                                 (Some ''https://www.arrl.org/field-day'')
                                 (Some ''Computed as the 4th full weekend of June (Sat-Sun).'')
                                 ''arrl-field-day''))))))"

fun field_day_loop :: "instant \<Rightarrow> int list \<Rightarrow> Event list \<Rightarrow> error + Event list" where
  "field_day_loop now [] out = Inr out"
| "field_day_loop now (yr # yrs) out =
     (case field_day_event yr of
        Inl err \<Rightarrow> Inl err
      | Inr e \<Rightarrow> field_day_loop now yrs (if is_in_window now e then out @ [e] else out))"

definition add_field_day_fixed :: "instant \<Rightarrow> error + Event list" where
  "add_field_day_fixed now =
     field_day_loop now [year (date_of now), year (date_of now) + 1] []"

section \<open>Deduplication\<close>







section \<open>Text utilities\<close>

abbreviation CR :: char where "CR \<equiv> CHR 0x0D"
abbreviation LF :: char where "LF \<equiv> CHR 0x0A"
abbreviation TAB :: char where "TAB \<equiv> CHR 0x09"
abbreviation BSL :: char where "BSL \<equiv> CHR 0x5C"

text \<open>\<open>str.strip()\<close> removes the whitespace at both ends; on ASCII the whitespace
  characters are tab, line feed, vertical tab, form feed, carriage return, the four
  separators 0x1C to 0x1F, and the space.\<close>

definition is_space :: "char \<Rightarrow> bool" where
  "is_space c \<longleftrightarrow> c \<in> set [CHR 0x09, CHR 0x0A, CHR 0x0B, CHR 0x0C, CHR 0x0D,
                              CHR 0x1C, CHR 0x1D, CHR 0x1E, CHR 0x1F, CHR 0x20]"

definition strip :: "string \<Rightarrow> string" where
  "strip s = rev (dropWhile is_space (rev (dropWhile is_space s)))"

text \<open>\<open>s.replace(old, new)\<close>: the occurrences of \<open>old\<close> are replaced from the left and do
  not overlap; an empty \<open>old\<close> puts \<open>new\<close> before every character and at the end.\<close>

function replace :: "string \<Rightarrow> string \<Rightarrow> string \<Rightarrow> string" where
  "replace old new [] = (if old = [] then new else [])"
| "replace old new (c # cs) =
     (if old = [] then new @ c # replace old new cs
      else if startswith (c # cs) old then new @ replace old new (drop (length old) (c # cs))
      else c # replace old new cs)"
  by pat_completeness auto
termination
  by (relation "measure (\<lambda>(old, new, s). length s)") auto

declare replace.simps [simp del]

definition ics_escape :: "string \<Rightarrow> string" where
  "ics_escape text =
     replace '';'' [BSL, CHR '';'']
       (replace '','' [BSL, CHR '','']
          (replace [LF] [BSL, CHR ''n'']
             (replace [BSL] [BSL, BSL] text)))"

definition unfold_ics_text :: "string \<Rightarrow> string" where
  "unfold_ics_text v0 =
     (let v = replace [BSL, BSL] [BSL]
                (replace [BSL, CHR '';''] '';''
                   (replace [BSL, CHR '',''] '',''
                      (replace [BSL, CHR ''n''] [LF] v0)))
      in strip v)"

text \<open>
  \<open>re.sub\<close> for a pattern that never matches the empty string: the text is scanned from
  the left; where the pattern matches, the replacement is written and the scan goes on
  behind the match, elsewhere the character is copied. A matcher tells the length of the
  match that starts at the head of its argument.
\<close>

fun re_sub :: "(string \<Rightarrow> nat option) \<Rightarrow> string \<Rightarrow> string \<Rightarrow> string" where
  "re_sub m rep [] = []"
| "re_sub m rep (c # cs) =
     (case m (c # cs) of
        Some n \<Rightarrow> rep @ re_sub m rep (drop (n - 1) cs)
      | None \<Rightarrow> c # re_sub m rep cs)"

text \<open>The pattern \<open>\r?\n[ \t]\<close> of \<open>unfold_ics\<close>.\<close>

fun match_fold :: "string \<Rightarrow> nat option" where
  "match_fold (a # b # c # cs) =
     (if a = CR \<and> b = LF \<and> (c = CHR '' '' \<or> c = TAB) then Some 3
      else if a = LF \<and> (b = CHR '' '' \<or> b = TAB) then Some 2
      else None)"
| "match_fold [a, b] = (if a = LF \<and> (b = CHR '' '' \<or> b = TAB) then Some 2 else None)"
| "match_fold _ = None"

definition unfold_ics :: "string \<Rightarrow> string" where
  "unfold_ics ics_text = re_sub match_fold [] ics_text"

text \<open>
  The search of \<open>extract_ics_field\<close> for \<open>^FIELD(;[^:]*)?:(.*)$\<close> in multi-line mode, for a
  field name made of letters. At the start of a line the name must be followed by a colon,
  or by a semicolon and, after the characters up to the next colon of the text, that colon;
  the value is the rest of the line. \<open>match_field\<close> tries one line start and
  \<open>search_field\<close> walks to the first line start where it succeeds.
\<close>

definition match_field :: "string \<Rightarrow> string \<Rightarrow> string option" where
  "match_field field_name s =
     (if startswith s field_name
      then (case drop (length field_name) s of
              [] \<Rightarrow> None
            | c # r \<Rightarrow>
                if c = CHR '':'' then Some (takeWhile (\<lambda>x. x \<noteq> LF) r)
                else if c = CHR '';''
                then (case dropWhile (\<lambda>x. x \<noteq> CHR '':'') r of
                        [] \<Rightarrow> None
                      | _ # v \<Rightarrow> Some (takeWhile (\<lambda>x. x \<noteq> LF) v))
                else None)
      else None)"

fun search_field :: "string \<Rightarrow> bool \<Rightarrow> string \<Rightarrow> string option" where
  "search_field field_name bol [] = (if bol then match_field field_name [] else None)"
| "search_field field_name bol (c # cs) =
     (case (if bol then match_field field_name (c # cs) else None) of
        Some v \<Rightarrow> Some v
      | None \<Rightarrow> search_field field_name (c = LF) cs)"

definition extract_ics_field :: "string \<Rightarrow> string \<Rightarrow> string option" where
  "extract_ics_field vevent field_name =
     (case search_field field_name True (unfold_ics vevent) of
        None \<Rightarrow> None
      | Some v \<Rightarrow> Some (strip v))"

section \<open>The calendar encoder\<close>

text \<open>
  \<open>uid\<close> hashes the identity fields with SHA-256 and keeps the first 32 hexadecimal digits.
  The hash function \<open>sha\<close> (SHA-256 in the source) is a parameter that gives the digest as a
  list of bytes.
\<close>

definition hex_digit :: "nat \<Rightarrow> char" where
  "hex_digit n = ''0123456789abcdef'' ! (n mod 16)"

definition hexdigest :: "nat list \<Rightarrow> string" where
  "hexdigest bs = concat (map (\<lambda>b. [hex_digit (b div 16), hex_digit b]) bs)"

definition uid :: "(string \<Rightarrow> nat list) \<Rightarrow> Event \<Rightarrow> string" where
  "uid sha e =
     take 32 (hexdigest (sha (source e @ ''|'' @ title e @ ''|'' @ isoformat (start e) @ ''|''
                                  @ or_empty (url e))))
     @ ''@hamcal''"

definition truthy :: "string option \<Rightarrow> bool" where
  "truthy v \<longleftrightarrow> (case v of None \<Rightarrow> False | Some s \<Rightarrow> s \<noteq> [])"

definition event_lines :: "(string \<Rightarrow> nat list) \<Rightarrow> instant \<Rightarrow> Event \<Rightarrow> string list" where
  "event_lines sha now e =
     (let lines1 = [''BEGIN:VEVENT'',
                    ''UID:'' @ uid sha e,
                    ''DTSTAMP:'' @ dt_to_ics now,
                    ''DTSTART:'' @ dt_to_ics (start e),
                    ''DTEND:'' @ dt_to_ics (endt e),
                    ''SUMMARY:'' @ ics_escape (title e)];
          lines2 = (if truthy (url e) then lines1 @ [''URL:'' @ ics_escape (or_empty (url e))]
                    else lines1);
          desc0 = strip (or_empty (description e));
          desc_out = (if truthy (url e) \<and> \<not> contains desc0 (or_empty (url e))
                      then (if desc0 \<noteq> [] then desc0 @ [LF, LF] else desc0)
                           @ ''Rules & details:'' @ [LF] @ or_empty (url e)
                      else desc0);
          lines3 = (if desc_out \<noteq> [] then lines2 @ [''DESCRIPTION:'' @ ics_escape desc_out]
                    else lines2);
          lines4 = (if categories e \<noteq> []
                    then lines3 @ [''CATEGORIES:'' @ ics_escape (join '','' (categories e))]
                    else lines3)
      in lines4 @ [''END:VEVENT''])"

definition ics_lines :: "(string \<Rightarrow> nat list) \<Rightarrow> instant \<Rightarrow> string \<Rightarrow> Event list \<Rightarrow> string list" where
  "ics_lines sha now calendar_name events =
     [''BEGIN:VCALENDAR'',
      ''VERSION:2.0'',
      ''PRODID:-//HAMCAL//hamcal//EN'',
      ''CALSCALE:GREGORIAN'',
      ''X-WR-CALNAME:'' @ ics_escape calendar_name,
      ''X-WR-TIMEZONE:UTC'']
     @ concat (map (event_lines sha now) (sort_key start events))"

definition build_ics :: "(string \<Rightarrow> nat list) \<Rightarrow> instant \<Rightarrow> string \<Rightarrow> Event list \<Rightarrow> string" where
  "build_ics sha now calendar_name events =
     join [CR, LF] (ics_lines sha now calendar_name events) @ [CR, LF]"

section \<open>The ICS feed parser\<close>

text \<open>\<open>text.split(sep)\<close> for a separator that is not empty: the separators are found from
  the left and do not overlap.\<close>

function split :: "string \<Rightarrow> string \<Rightarrow> string list" where
  "split sep [] = [[]]"
| "split sep (c # cs) =
     (if sep \<noteq> [] \<and> startswith (c # cs) sep
      then [] # split sep (drop (length sep) (c # cs))
      else (case split sep cs of
              [] \<Rightarrow> [[c]]
            | x # xs \<Rightarrow> (c # x) # xs))"
  by pat_completeness auto
termination
  by (relation "measure (\<lambda>(sep, s). length s)") auto

declare split.simps [simp del]

definition is_digit :: "char \<Rightarrow> bool" where
  "is_digit c \<longleftrightarrow> c \<in> set ''0123456789''"

definition digit_val :: "char \<Rightarrow> int" where
  "digit_val c = int (length (takeWhile (\<lambda>d. d \<noteq> c) ''0123456789''))"

definition int_of_digits :: "string \<Rightarrow> int" where
  "int_of_digits s = foldl (\<lambda>a c. 10 * a + digit_val c) 0 s"

text \<open>
  \<open>parse_google_ics_datetime\<close>: a value of eight digits is read by \<open>strptime\<close> as year, month
  and day, which raises \<open>ValueError\<close> outside the calendar, and stands for the UTC midnight
  of that day. Every other value goes to \<open>dateutil\<close>'s parser; the parameter \<open>dtparse\<close> is
  that parser followed by the source's normalisation to UTC, and it may raise.
\<close>

definition parse_google_ics_datetime :: "(string \<Rightarrow> error + instant) \<Rightarrow> string \<Rightarrow> error + instant" where
  "parse_google_ics_datetime dtparse value0 =
     (let v = strip value0
      in if length v = 8 \<and> list_all is_digit v
         then (case mk_date (int_of_digits (take 4 v)) (int_of_digits (take 2 (drop 4 v)))
                       (int_of_digits (drop 6 v)) of
                 Inl err \<Rightarrow> Inl err
               | Inr d \<Rightarrow> Inr (utc_midnight d))
         else dtparse v)"

text \<open>
  The body of the loop of \<open>ingest_wa7bnm_gcal\<close> for the block \<open>b\<close>: \<open>Inr None\<close> is the
  \<open>continue\<close> of a block without start or the drop of an event outside the window,
  \<open>Inr (Some e)\<close> an event appended to the list, \<open>Inl err\<close> an exception that leaves the loop.
\<close>

definition process_block :: "(string \<Rightarrow> error + instant) \<Rightarrow> instant \<Rightarrow> string \<Rightarrow> error + Event option" where
  "process_block dtparse now b =
     (let vevent = ''BEGIN:VEVENT'' @ b;
          dtstart = extract_ics_field vevent ''DTSTART'';
          dtend = extract_ics_field vevent ''DTEND'';
          summary = (if truthy (extract_ics_field vevent ''SUMMARY'')
                     then or_empty (extract_ics_field vevent ''SUMMARY'') else ''Contest'');
          url = extract_ics_field vevent ''URL'';
          desc = extract_ics_field vevent ''DESCRIPTION''
      in if \<not> truthy dtstart then Inr None
         else
           (case parse_google_ics_datetime dtparse (or_empty dtstart) of
              Inl err \<Rightarrow> Inl err
            | Inr start_utc \<Rightarrow>
                (case (if truthy dtend then parse_google_ics_datetime dtparse (or_empty dtend)
                       else dt_add start_utc (timedelta_hours 1)) of
                   Inl err \<Rightarrow> Inl err
                 | Inr end_utc \<Rightarrow>
                     let e0 = mk_event (unfold_ics_text summary) start_utc end_utc
                                (if truthy url then Some (unfold_ics_text (or_empty url)) else None)
                                (if truthy desc then Some (unfold_ics_text (or_empty desc)) else None)
                                ''wa7bnm-gcal'';
                         e1 = add_category ''contest'' e0;
                         e2 = tag_modes e1;
                         e3 = tag_field_day e2
                     in Inr (if is_in_window now e3 then Some e3 else None))))"

fun ingest_loop :: "(string \<Rightarrow> error + instant) \<Rightarrow> instant \<Rightarrow> string list \<Rightarrow> Event list \<Rightarrow> error + Event list" where
  "ingest_loop dtparse now [] events = Inr events"
| "ingest_loop dtparse now (b # bs) events =
     (case process_block dtparse now b of
        Inl err \<Rightarrow> Inl err
      | Inr None \<Rightarrow> ingest_loop dtparse now bs events
      | Inr (Some e) \<Rightarrow> ingest_loop dtparse now bs (events @ [e]))"

text \<open>\<open>ingest_wa7bnm_gcal\<close> on the text that the fetch returned.\<close>

definition ingest_wa7bnm_gcal :: "(string \<Rightarrow> error + instant) \<Rightarrow> instant \<Rightarrow> string \<Rightarrow> error + Event list" where
  "ingest_wa7bnm_gcal dtparse now text =
     ingest_loop dtparse now (drop 1 (split ''BEGIN:VEVENT'' text)) []"

section \<open>Markup stripping\<close>

text \<open>
  \<open>strip_html\<close> applies four \<open>re.sub\<close> calls and \<open>html.unescape\<close>. Its patterns are raw
  strings in which the backslashes are doubled, so the regular expressions they denote are
  \<^item> \<open><(script|style).*?>.*?</\\1>\<close>, ignoring case: the closing part is the five characters
    \<open><\<close>, \<open>/\<close>, backslash, \<open>1\<close>, \<open>>\<close>, not a back-reference;
  \<^item> \<open><br\\s*/?>\<close>: \<open><br\<close>, a backslash, any number of letters s, an optional slash, \<open>>\<close>;
  \<^item> \<open></p>\<close>;
  \<^item> \<open><.*?>\<close>, the dot matching every character.
  Each matcher gives the length of the match at the head of the text. The replacement
  \<open>"\\n"\<close> is a template that \<open>re.sub\<close> expands to a line feed.
\<close>

fun find_char :: "char \<Rightarrow> string \<Rightarrow> nat option" where
  "find_char x [] = None"
| "find_char x (c # cs) =
     (if c = x then Some 0 else (case find_char x cs of None \<Rightarrow> None | Some i \<Rightarrow> Some (Suc i)))"

fun find_sub :: "string \<Rightarrow> string \<Rightarrow> nat option" where
  "find_sub pat [] = (if pat = [] then Some 0 else None)"
| "find_sub pat (c # cs) =
     (if startswith (c # cs) pat then Some 0
      else (case find_sub pat cs of None \<Rightarrow> None | Some i \<Rightarrow> Some (Suc i)))"

definition startswith_ci :: "string \<Rightarrow> string \<Rightarrow> bool" where
  "startswith_ci s p \<longleftrightarrow> startswith (upper s) (upper p)"

text \<open>After the tag name the lazy \<open>.*?>\<close> stops at the first \<open>>\<close>, and the lazy
  \<open>.*?\<close> behind it at the first closing part; if there is no closing part behind the first
  \<open>>\<close>, there is none behind a later one either.\<close>

definition match_script :: "string \<Rightarrow> nat option" where
  "match_script s =
     (case s of
        [] \<Rightarrow> None
      | c # r0 \<Rightarrow>
          if c \<noteq> CHR ''<'' then None
          else
            let name_len = (if startswith_ci r0 ''script'' then Some 6
                            else if startswith_ci r0 ''style'' then Some 5 else None)
            in (case name_len of
                  None \<Rightarrow> None
                | Some k \<Rightarrow>
                    let r1 = drop k r0
                    in (case find_char (CHR ''>'') r1 of
                          None \<Rightarrow> None
                        | Some i \<Rightarrow>
                            (case find_sub (''</'' @ [BSL] @ ''1>'') (drop (Suc i) r1) of
                               None \<Rightarrow> None
                             | Some j \<Rightarrow> Some (1 + k + Suc i + j + 5)))))"

definition match_br :: "string \<Rightarrow> nat option" where
  "match_br s =
     (if startswith s (''<br'' @ [BSL])
      then let r = drop 4 s;
               n = length (takeWhile (\<lambda>c. c = CHR ''s'') r);
               r' = drop n r
           in if startswith r' ''/>'' then Some (4 + n + 2)
              else if startswith r' ''>'' then Some (4 + n + 1)
              else None
      else None)"

definition match_p_close :: "string \<Rightarrow> nat option" where
  "match_p_close s = (if startswith s ''</p>'' then Some 4 else None)"

definition match_tag :: "string \<Rightarrow> nat option" where
  "match_tag s =
     (case s of
        [] \<Rightarrow> None
      | c # r \<Rightarrow>
          if c \<noteq> CHR ''<'' then None
          else (case find_char (CHR ''>'') r of None \<Rightarrow> None | Some i \<Rightarrow> Some (i + 2)))"

text \<open>\<open>html.unescape\<close> returns a text without \<open>&\<close> as it is; the replacement of the
  character references, with its table of entity names, is the parameter \<open>entities\<close>.\<close>

definition html_unescape :: "(string \<Rightarrow> string) \<Rightarrow> string \<Rightarrow> string" where
  "html_unescape entities s = (if CHR ''&'' \<notin> set s then s else entities s)"

definition strip_html :: "(string \<Rightarrow> string) \<Rightarrow> string \<Rightarrow> string" where
  "strip_html entities h0 =
     (let h1 = re_sub match_script [] h0;
          h2 = re_sub match_br [LF] h1;
          h3 = re_sub match_p_close [LF] h2;
          h4 = re_sub match_tag [] h3
      in html_unescape entities h4)"

section \<open>Notions used in the statements and proofs about the encoder\<close>

text \<open>
  None of these is a function of the source. \<open>esc_char\<close> is what \<open>ics_escape\<close> does to one
  character, \<open>tokA\<close>, \<open>tokB\<close> and \<open>tokC\<close> are what is left of it after each replacement of
  \<open>unfold_ics_text\<close>, and \<open>bsl_n_free\<close> says that no backslash is followed by the letter n.
  \<open>lines_text\<close> ends every line with CR LF; \<open>line_ok\<close> holds for a line that has no line feed
  and does not begin with a space or a tab. The remaining functions name the groups of lines
  that \<open>build_ics\<close> writes for one event.
\<close>

definition esc_char :: "char \<Rightarrow> string" where
  "esc_char c =
     (if c = BSL then [BSL, BSL]
      else if c = LF then [BSL, CHR ''n'']
      else if c = CHR '','' then [BSL, CHR '','']
      else if c = CHR '';'' then [BSL, CHR '';'']
      else [c])"

definition tokA :: "char \<Rightarrow> string" where
  "tokA c = (if c = LF then [LF] else esc_char c)"

definition tokB :: "char \<Rightarrow> string" where
  "tokB c = (if c = CHR '','' then '','' else tokA c)"

definition tokC :: "char \<Rightarrow> string" where
  "tokC c = (if c = BSL then [BSL, BSL] else [c])"

fun bsl_n_free :: "string \<Rightarrow> bool" where
  "bsl_n_free (a # b # cs) = (\<not> (a = BSL \<and> b = CHR ''n'') \<and> bsl_n_free (b # cs))"
| "bsl_n_free _ = True"

definition lines_text :: "string list \<Rightarrow> string" where
  "lines_text ls = concat (map (\<lambda>l. l @ [CR, LF]) ls)"

definition line_ok :: "string \<Rightarrow> bool" where
  "line_ok l \<longleftrightarrow> LF \<notin> set l \<and> \<not> startswith l '' '' \<and> \<not> startswith l [TAB]"

definition url_lines :: "Event \<Rightarrow> string list" where
  "url_lines e = (if truthy (url e) then [''URL:'' @ ics_escape (or_empty (url e))] else [])"

definition desc_out :: "Event \<Rightarrow> string" where
  "desc_out e =
     (let desc0 = strip (or_empty (description e))
      in if truthy (url e) \<and> \<not> contains desc0 (or_empty (url e))
         then (if desc0 \<noteq> [] then desc0 @ [LF, LF] else desc0)
              @ ''Rules & details:'' @ [LF] @ or_empty (url e)
         else desc0)"

definition desc_lines :: "Event \<Rightarrow> string list" where
  "desc_lines e = (if desc_out e \<noteq> [] then [''DESCRIPTION:'' @ ics_escape (desc_out e)] else [])"

definition cat_lines :: "Event \<Rightarrow> string list" where
  "cat_lines e =
     (if categories e \<noteq> [] then [''CATEGORIES:'' @ ics_escape (join '','' (categories e))] else [])"

definition head_lines :: "(string \<Rightarrow> nat list) \<Rightarrow> instant \<Rightarrow> string \<Rightarrow> Event \<Rightarrow> string list" where
  "head_lines sha now calendar_name e =
     [''BEGIN:VCALENDAR'', ''VERSION:2.0'', ''PRODID:-//HAMCAL//hamcal//EN'',
      ''CALSCALE:GREGORIAN'', ''X-WR-CALNAME:'' @ ics_escape calendar_name,
      ''X-WR-TIMEZONE:UTC'', ''BEGIN:VEVENT'', ''UID:'' @ uid sha e,
      ''DTSTAMP:'' @ dt_to_ics now, ''DTSTART:'' @ dt_to_ics (start e),
      ''DTEND:'' @ dt_to_ics (endt e)]"


section \<open>Window membership\<close>

text \<open>
  C1. An event is in the window exactly when its end is strictly after now and its start is
  strictly before now + 62 days. An event whose end is now itself, and an event whose start
  is the horizon end itself, are outside the window.
\<close>

theorem is_in_window_iff:
  "(is_in_window now e \<longleftrightarrow> endt e > now \<and> start e < now + 62 * 86400 * 1000000)
   \<and> \<not> is_in_window now (e\<lparr>endt := now\<rparr>)
   \<and> \<not> is_in_window now (e\<lparr>start := now + 62 * 86400 * 1000000\<rparr>)"
  by (simp add: is_in_window_def HORIZON_END_UTC_def timedelta_days_def usec_per_day_def
      usec_per_second_def)

section \<open>Duration formatting\<close>

lemma str_int_nat: "str_int (int n) = str_nat n" by (simp add: str_int_def)

lemma mantissa_shift_post: "0 < a \<Longrightarrow> 2 ^ 52 * b \<le> a * 2 ^ mantissa_shift a b s"
proof (induction a b s rule: mantissa_shift.induct)
  case (1 a b s)
  show ?case
  proof (cases "a * 2 ^ s < 2 ^ 52 * b")
    case True
    with 1 show ?thesis by (subst mantissa_shift.simps) simp
  next
    case False
    then show ?thesis by (subst mantissa_shift.simps) simp
  qed
qed

lemma mantissa_shift_zero: "mantissa_shift 0 b s = s"
  by (subst mantissa_shift.simps) simp

lemma round_half_even_cases:
  "round_half_even n d = n div d \<or> (round_half_even n d = n div d + 1 \<and> d \<le> 2 * (n mod d))"
  by (auto simp: round_half_even_def Let_def)

lemma div_between:
  fixes m P T :: int
  assumes "T * P \<le> m" "m < T * P + P"
  shows "m div P = T"
proof -
  have P: "0 < P" using assms by linarith
  have "m = P * T + (m - T * P)" by (simp add: algebra_simps)
  moreover have "0 \<le> m - T * P" "m - T * P < P" using assms by linarith+
  ultimately show ?thesis
    by (metis div_pos_pos_trivial div_mult_self4 add.commute add_0 mult.commute P less_irrefl)
qed

lemma true_divide_trunc_exact:
  assumes a: "0 \<le> a" "a < 2 ^ 34 * b" and b: "0 < b" "b < 2 ^ 20"
  shows "true_divide_trunc a b = a div b"
proof (cases "a = 0")
  case True
  then show ?thesis using b
    by (simp add: true_divide_trunc_def mantissa_shift_zero round_half_even_def)
next
  case False
  with a have pos: "0 < a" by simp
  define s where "s = mantissa_shift a b 0"
  define P :: int where "P = 2 ^ s"
  define N where "N = a * P"
  define T where "T = a div b"
  define rho where "rho = a mod b"
  define q where "q = N div b"
  define r where "r = N mod b"
  define m where "m = round_half_even N b"
  have post: "2 ^ 52 * b \<le> a * P" unfolding P_def s_def using pos by (rule mantissa_shift_post)
  have s19: "19 \<le> s"
  proof (rule ccontr)
    assume "\<not> 19 \<le> s"
    then have "s \<le> 18" by simp
    then have "(2::int) ^ s \<le> 2 ^ 18" by (intro power_increasing) simp_all
    then have "a * P \<le> a * 2 ^ 18" unfolding P_def using a(1) by (intro mult_left_mono)
    also have "\<dots> < (2 ^ 34 * b) * 2 ^ 18" using a(2) by (intro mult_strict_right_mono) simp_all
    also have "\<dots> = 2 ^ 52 * b" by simp
    finally show False using post by simp
  qed
  have "(2::int) ^ 19 \<le> 2 ^ s" using s19 by (intro power_increasing) simp_all
  then have P: "0 < P" "b < 2 * P" using b(2) by (simp_all add: P_def)
  define X where "X = T * P"
  define A where "A = X * b"
  define B where "B = P * b"
  define C where "C = q * b"
  define R where "R = rho * P"
  have rho: "0 \<le> rho" "rho \<le> b - 1" using b(1) by (simp_all add: rho_def)
  have aT: "a = T * b + rho" by (simp add: T_def rho_def)
  have N1: "N = A + R" by (simp add: N_def aT A_def X_def R_def algebra_simps)
  have R0: "0 \<le> R" unfolding R_def using rho(1) P(1) by simp
  have "rho * P \<le> (b - 1) * P" using rho(2) P(1) by (intro mult_right_mono) simp_all
  then have R1: "R \<le> B - P" by (simp add: R_def B_def algebra_simps)
  have r: "0 \<le> r" "r < b" using b(1) by (simp_all add: r_def)
  have N2: "N = C + r" by (simp add: C_def q_def r_def)
  have lower: "X \<le> q"
  proof (rule ccontr)
    assume "\<not> X \<le> q"
    then have "q + 1 \<le> X" by simp
    then have "(q + 1) * b \<le> X * b" using b(1) by (intro mult_right_mono) simp_all
    then have "C + b \<le> A" by (simp add: C_def A_def algebra_simps)
    with N1 N2 R0 r show False by linarith
  qed
  have upper_q: "q < X + P"
  proof (rule ccontr)
    assume "\<not> q < X + P"
    then have "X + P \<le> q" by simp
    then have "(X + P) * b \<le> q * b" using b(1) by (intro mult_right_mono) simp_all
    then have "A + B \<le> C" by (simp add: C_def A_def B_def algebra_simps)
    with N1 N2 R1 r P show False by linarith
  qed
  have upper_q1: "q + 1 < X + P" if up: "b \<le> 2 * r"
  proof (rule ccontr)
    assume "\<not> q + 1 < X + P"
    then have "X + P - 1 \<le> q" by simp
    then have "(X + P - 1) * b \<le> q * b" using b(1) by (intro mult_right_mono) simp_all
    then have "A + B - b \<le> C" by (simp add: C_def A_def B_def algebra_simps)
    with N1 N2 R1 up P show False by linarith
  qed
  have m: "X \<le> m" "m < X + P"
    using round_half_even_cases [of N b] lower upper_q upper_q1
    unfolding m_def q_def r_def by auto
  then have "m div P = T" unfolding X_def by (rule div_between)
  then show ?thesis
    by (simp add: true_divide_trunc_def Let_def s_def [symmetric] P_def [symmetric]
        N_def [symmetric] m_def [symmetric] T_def)
qed

lemma true_divide_trunc_nonneg:
  assumes "0 \<le> a" "0 < b"
  shows "0 \<le> true_divide_trunc a b"
proof -
  let ?s = "mantissa_shift a b 0"
  have "0 \<le> (a * 2 ^ ?s) div b" using assms by (simp add: pos_imp_zdiv_nonneg_iff)
  then have "0 \<le> round_half_even (a * 2 ^ ?s) b"
    using round_half_even_cases [of "a * 2 ^ ?s" b] by auto
  then show ?thesis by (simp add: true_divide_trunc_def Let_def pos_imp_zdiv_nonneg_iff)
qed

lemma total_seconds_int_nonneg:
  assumes "0 \<le> d" "d < 17179869184 * 1000000"
  shows "total_seconds_int d = d div 1000000"
proof -
  have "true_divide_trunc d 1000000 = d div 1000000"
    using assms by (intro true_divide_trunc_exact) simp_all
  then show ?thesis using assms(1) by (simp add: total_seconds_int_def usec_per_second_def)
qed

lemma total_seconds_int_nonpos: "d \<le> 0 \<Longrightarrow> total_seconds_int d \<le> 0"
  using true_divide_trunc_nonneg [of "- d" 1000000] true_divide_trunc_nonneg [of 0 1000000]
  by (cases "d = 0") (simp_all add: total_seconds_int_def usec_per_second_def
      true_divide_trunc_def mantissa_shift_zero round_half_even_def)

lemma fmt_duration_nonpos: "total_seconds_int (e - s) \<le> 0 \<Longrightarrow> fmt_duration s e = ''0m''"
  by (simp add: fmt_duration_def)

lemma fmt_duration_parts:
  assumes "total_seconds_int (e - s) = T" "0 < T"
    and "T div 60 div (60 * 24) = int D" "T div 60 mod (60 * 24) div 60 = int H"
    and "T div 60 mod (60 * 24) mod 60 = int M"
  shows "fmt_duration s e =
     join '' '' ((if D \<noteq> 0 then [str_nat D @ ''d''] else []) @
                 (if H \<noteq> 0 then [str_nat H @ ''h''] else []) @
                 (if M \<noteq> 0 \<or> (D = 0 \<and> H = 0) then [str_nat M @ ''m''] else []))"
proof -
  have "fmt_duration s e =
     (let parts1 = (if int D \<noteq> 0 then [] @ [str_int (int D) @ ''d''] else []);
          parts2 = (if int H \<noteq> 0 then parts1 @ [str_int (int H) @ ''h''] else parts1);
          parts3 = (if int M \<noteq> 0 \<or> parts2 = [] then parts2 @ [str_int (int M) @ ''m''] else parts2)
      in join '' '' parts3)"
    unfolding fmt_duration_def using assms(2)
    by (simp only: assms(1,3,4,5) Let_def if_False not_le [symmetric])
  then show ?thesis
    by (cases "D = 0"; cases "H = 0"; cases "M = 0") (simp_all add: str_int_nat str_int_def)
qed

lemma fmt_duration_decompose:
  fixes d h m r u :: nat
  assumes "h < 24" "m < 60" "r < 60" "u < 1000000"
    and short: "((int d * 24 + int h) * 60 + int m) * 60 + int r < 17179869184"
  defines "secs \<equiv> ((int d * 24 + int h) * 60 + int m) * 60 + int r"
  shows "fmt_duration s (s + secs * 1000000 + int u) =
     join '' '' ((if d \<noteq> 0 then [str_nat d @ ''d''] else []) @
                 (if h \<noteq> 0 then [str_nat h @ ''h''] else []) @
                 (if m \<noteq> 0 \<or> (d = 0 \<and> h = 0) then [str_nat m @ ''m''] else []))"
proof -
  let ?M = "(int d * 24 + int h) * 60 + int m"
  have secs0: "0 \<le> secs" by (simp add: secs_def)
  have "secs + 1 \<le> 17179869184" using short by (simp add: secs_def)
  then have "(secs + 1) * 1000000 \<le> 17179869184 * 1000000" by (intro mult_right_mono) simp_all
  then have bound: "secs * 1000000 + int u < 17179869184 * 1000000"
    using assms(4) by (simp add: algebra_simps)
  have "total_seconds_int (secs * 1000000 + int u) = (secs * 1000000 + int u) div 1000000"
    using secs0 bound by (intro total_seconds_int_nonneg) simp_all
  also have "\<dots> = secs" using assms(4) by simp
  finally have t: "total_seconds_int (s + secs * 1000000 + int u - s) = secs" by simp
  have m0: "secs div 60 = ?M"
    using assms(3) by (simp add: secs_def)
  have M: "?M = int d * (60 * 24) + (int h * 60 + int m)" by (simp add: algebra_simps)
  have hm: "int h * 60 + int m < 60 * 24" "0 \<le> int h * 60 + int m" using assms(1,2) by simp_all
  have dd: "?M div (60 * 24) = int d"
    unfolding M using hm by simp
  have mm: "?M mod (60 * 24) = int h * 60 + int m"
    unfolding M using hm by simp
  have hh: "(int h * 60 + int m) div 60 = int h" using assms(2) by simp
  have mi: "(int h * 60 + int m) mod 60 = int m" using assms(2) by simp
  show ?thesis
  proof (cases "secs \<le> 0")
    case True
    with secs0 have "secs = 0" by simp
    then have "d = 0" "h = 0" "m = 0" by (simp_all add: secs_def)
    with True t show ?thesis
      by (simp add: fmt_duration_nonpos str_nat.simps digit_char_def)
  next
    case False
    then have pos: "0 < secs" by simp
    show ?thesis
      by (rule fmt_duration_parts [OF t pos]) (simp_all only: m0 dd mm hh mi)
  qed
qed

text \<open>
  A span of 200000 days and 59.999999 seconds has neither hours nor minutes, yet it is
  rendered with one minute: at this size the double nearest to the number of seconds is the
  next whole second.
\<close>

theorem fmt_duration_long_span_rounds_up:
  "fmt_duration 0 ((((200000 * 24 + 0) * 60 + 0) * 60 + 59) * 1000000 + 999999) = ''200000d 1m''
   \<and> fmt_duration 0 ((((200000 * 24 + 0) * 60 + 0) * 60 + 59) * 1000000 + 999999) \<noteq> ''200000d''"
proof -
  have t: "total_seconds_int (17280000059999999 - 0) = 17280000060"
    by code_simp
  have "fmt_duration 0 17280000059999999 =
     join '' '' ((if (200000::nat) \<noteq> 0 then [str_nat 200000 @ ''d''] else []) @
                 (if (0::nat) \<noteq> 0 then [str_nat 0 @ ''h''] else []) @
                 (if (1::nat) \<noteq> 0 \<or> ((200000::nat) = 0 \<and> (0::nat) = 0) then [str_nat 1 @ ''m''] else []))"
    by (rule fmt_duration_parts [OF t]) simp_all
  also have "\<dots> = ''200000d 1m''"
    by (simp add: str_nat.simps digit_char_def)
  finally show ?thesis by simp
qed

text \<open>
  C7 (amended). A span that is zero or negative is rendered as \<open>0m\<close>. A span shorter than
  \<open>2^34\<close> seconds (17179869184 s, about 544 years) of \<open>d\<close> days, \<open>h < 24\<close> hours, \<open>m < 60\<close>
  minutes and a remainder below one minute is rendered with the units that are not zero, the
  minutes being shown also when neither days nor hours are; 125 minutes give \<open>2h 5m\<close> and
  1500 minutes give \<open>1d 1h\<close>.
\<close>

theorem fmt_duration_spec:
  fixes d h m r u :: nat
  shows "(e \<le> s \<longrightarrow> fmt_duration s e = ''0m'')
   \<and> (((int d * 24 + int h) * 60 + int m) * 60 + int r < 17179869184
        \<and> h < 24 \<and> m < 60 \<and> r < 60 \<and> u < 1000000 \<longrightarrow>
        fmt_duration s (s + (((int d * 24 + int h) * 60 + int m) * 60 + int r) * 1000000 + int u) =
          join '' '' ((if d \<noteq> 0 then [str_nat d @ ''d''] else []) @
                      (if h \<noteq> 0 then [str_nat h @ ''h''] else []) @
                      (if m \<noteq> 0 \<or> (d = 0 \<and> h = 0) then [str_nat m @ ''m''] else [])))
   \<and> fmt_duration s (s + timedelta_minutes 125) = ''2h 5m''
   \<and> fmt_duration s (s + timedelta_minutes 1500) = ''1d 1h''"
proof (intro conjI impI)
  assume "e \<le> s"
  then show "fmt_duration s e = ''0m''"
    using total_seconds_int_nonpos [of "e - s"] by (simp add: fmt_duration_nonpos)
next
  assume a: "((int d * 24 + int h) * 60 + int m) * 60 + int r < 17179869184
        \<and> h < 24 \<and> m < 60 \<and> r < 60 \<and> u < 1000000"
  then have "h < 24" "m < 60" "r < 60" "u < 1000000"
    "((int d * 24 + int h) * 60 + int m) * 60 + int r < 17179869184" by simp_all
  then show "fmt_duration s (s + (((int d * 24 + int h) * 60 + int m) * 60 + int r) * 1000000 + int u) =
          join '' '' ((if d \<noteq> 0 then [str_nat d @ ''d''] else []) @
                      (if h \<noteq> 0 then [str_nat h @ ''h''] else []) @
                      (if m \<noteq> 0 \<or> (d = 0 \<and> h = 0) then [str_nat m @ ''m''] else []))"
    by (rule fmt_duration_decompose)
next
  have "fmt_duration s (s + (((int 0 * 24 + int 2) * 60 + int 5) * 60 + int 0) * 1000000 + int 0) = ''2h 5m''"
    by (subst fmt_duration_decompose) (simp_all add: str_nat.simps digit_char_def)
  then show "fmt_duration s (s + timedelta_minutes 125) = ''2h 5m''"
    by (simp add: timedelta_minutes_def usec_per_second_def)
next
  have "fmt_duration s (s + (((int 1 * 24 + int 1) * 60 + int 0) * 60 + int 0) * 1000000 + int 0) = ''1d 1h''"
    by (subst fmt_duration_decompose) (simp_all add: str_nat.simps digit_char_def)
  then show "fmt_duration s (s + timedelta_minutes 1500) = ''1d 1h''"
    by (simp add: timedelta_minutes_def usec_per_second_def)
qed

theorem fmt_duration_spec_witness:
  "fmt_duration 7 7 = ''0m'' \<and> fmt_duration 0 (((((0 * 24 + 3) * 60 + 0) * 60 + 59) * 1000000) + 1) = ''3h''
   \<and> fmt_duration 0 ((((198841 * 24 + 1) * 60 + 53) * 60 + 3) * 1000000 + 999999) = ''198841d 1h 53m''"
  using fmt_duration_spec [where e = 7 and s = 7]
    fmt_duration_spec [where s = 0 and d = 0 and h = 3 and m = 0 and r = 59 and u = 1]
    fmt_duration_spec [where s = 0 and d = 198841 and h = 1 and m = 53 and r = 3 and u = 999999]
  by (simp add: str_nat.simps digit_char_def)

text \<open>
  C10. A span that is strictly positive and shorter than one minute is rendered as \<open>0m\<close>.
\<close>

theorem fmt_duration_sub_minute:
  "0 < e - s \<and> e - s < timedelta_minutes 1 \<longrightarrow> fmt_duration s e = ''0m''"
proof
  assume a: "0 < e - s \<and> e - s < timedelta_minutes 1"
  let ?t = "total_seconds_int (e - s)"
  have t: "?t = (e - s) div 1000000"
    using a by (intro total_seconds_int_nonneg) (simp_all add: timedelta_minutes_def usec_per_second_def)
  have "0 \<le> ?t" using a unfolding t by (simp add: pos_imp_zdiv_nonneg_iff)
  moreover have "?t < 60"
    using a zdiv_mono1 [of "e - s" 59999999 1000000] unfolding t
    by (simp add: timedelta_minutes_def usec_per_second_def)
  ultimately have z: "?t div 60 = 0" by simp
  show "fmt_duration s e = ''0m''"
  proof (cases "?t \<le> 0")
    case True then show ?thesis by (simp add: fmt_duration_nonpos)
  next
    case False
    then have pos: "0 < ?t" by simp
    have "fmt_duration s e = join '' '' ((if (0::nat) \<noteq> 0 then [str_nat 0 @ ''d''] else []) @
                 (if (0::nat) \<noteq> 0 then [str_nat 0 @ ''h''] else []) @
                 (if (0::nat) \<noteq> 0 \<or> ((0::nat) = 0 \<and> (0::nat) = 0) then [str_nat 0 @ ''m''] else []))"
      by (rule fmt_duration_parts [OF refl pos]) (simp_all add: z)
    then show ?thesis by (simp add: str_nat.simps digit_char_def)
  qed
qed

theorem fmt_duration_sub_minute_witness:
  "fmt_duration 10 60000009 = ''0m'' \<and> fmt_duration 10 11 = ''0m''"
  using fmt_duration_sub_minute [where s = 10 and e = 60000009] fmt_duration_sub_minute [where s = 10 and e = 11]
  by (simp add: timedelta_minutes_def usec_per_second_def)

section \<open>Deduplication keeps the last event of each key\<close>


















section \<open>The Field Day rule: ordinals, weekdays and the fourth Saturday\<close>



lemma divmod_step:
  fixes m q r :: int
  assumes "0 \<le> r" "r < m"
  shows "(m * q + r) div m = q" "(m * q + r) mod m = r"
  using assms by simp_all

lemma ord2ymd_split:
  fixes a b c e r :: int
  assumes b: "0 \<le> b" "b < 4" and c: "0 \<le> c" "c < 25" and e: "0 \<le> e" "e < 4"
    and r: "0 \<le> r" "r < 365"
  shows "ord2ymd (146097 * a + (36524 * b + (1461 * c + (365 * e + r))) + 1) =
     (let y = a * 400 + 1 + b * 100 + c * 4 + e;
          leapyear = (e = 3 \<and> (c \<noteq> 24 \<or> b = 3));
          m = (r + 50) div 32;
          preceding = DAYS_BEFORE_MONTH ! nat m + (if m > 2 \<and> leapyear then 1 else 0)
      in if preceding > r
         then let m' = m - 1;
                  preceding' = preceding
                     - (DAYS_IN_MONTH ! nat m' + (if m' = 2 \<and> leapyear then 1 else 0))
              in \<lparr>year = y, month = m', day = r - preceding' + 1\<rparr>
         else \<lparr>year = y, month = m, day = r - preceding + 1\<rparr>)"
proof -
  let ?R3 = "365 * e + r"
  let ?R2 = "1461 * c + ?R3"
  let ?R1 = "36524 * b + ?R2"
  have r3: "0 \<le> ?R3" "?R3 < 1461" using e r by linarith+
  have r2: "0 \<le> ?R2" "?R2 < 36524" using c e r by linarith+
  have r1: "0 \<le> ?R1" "?R1 < 146097" using b c e r by linarith+
  note s1 = divmod_step [OF r1, of a]
  note s2 = divmod_step [OF r2, of b]
  note s3 = divmod_step [OF r3, of c]
  note s4 = divmod_step [OF r, of e]
  have n: "146097 * a + ?R1 + 1 - 1 = 146097 * a + ?R1" by simp
  have ne: "\<not> (e = 4 \<or> b = 4)" using b e by auto
  show ?thesis
    unfolding ord2ymd_def Let_def n s1 s2 s3 s4 using ne by (simp only: if_False)
qed

lemma year_digits:
  fixes Y :: int
  defines "a \<equiv> Y div 400" and "b \<equiv> Y mod 400 div 100" and "c \<equiv> Y mod 100 div 4" and "e \<equiv> Y mod 4"
  shows "0 \<le> b \<and> b < 4 \<and> 0 \<le> c \<and> c < 25 \<and> 0 \<le> e \<and> e < 4
    \<and> Y = a * 400 + b * 100 + c * 4 + e
    \<and> Y div 4 = a * 100 + b * 25 + c
    \<and> Y div 100 = a * 4 + b"
proof -
  let ?R = "Y mod 400" and ?S = "Y mod 100"
  have R: "0 \<le> ?R" "?R < 400" by simp_all
  have S: "0 \<le> ?S" "?S < 100" by simp_all
  have e: "0 \<le> e" "e < 4" by (simp_all add: e_def)
  have Y: "Y = 400 * a + ?R" by (simp add: a_def)
  have RS: "?R mod 100 = ?S" by (simp add: mod_mod_cancel)
  have Se: "?S mod 4 = e" by (simp add: e_def mod_mod_cancel)
  have Rb: "?R = 100 * b + ?S" using mult_div_mod_eq [of 100 ?R] by (simp add: b_def RS)
  have Sc: "?S = 4 * c + e" using mult_div_mod_eq [of 4 ?S] by (simp add: c_def Se)
  have b: "0 \<le> b" "b < 4" using R S Rb by linarith+
  have c: "0 \<le> c" "c < 25" using S e Sc by linarith+
  have Yall: "Y = a * 400 + b * 100 + c * 4 + e" using Y Rb Sc by linarith
  have "a * 400 + b * 100 + c * 4 + e = 4 * (a * 100 + b * 25 + c) + e" by simp
  with Yall have "Y = 4 * (a * 100 + b * 25 + c) + e" by (rule trans)
  then have d4: "Y div 4 = a * 100 + b * 25 + c"
    using divmod_step(1) [OF e(1) e(2), of "a * 100 + b * 25 + c"] by simp
  have "400 * a + (100 * b + ?S) = 100 * (a * 4 + b) + ?S" by simp
  with Y Rb have "Y = 100 * (a * 4 + b) + ?S" by metis
  then have d100: "Y div 100 = a * 4 + b"
    using divmod_step(1) [OF S(1) S(2), of "a * 4 + b"] by simp
  show ?thesis using b c e Yall d4 d100 by simp
qed


lemma days_before_year_digits:
  fixes y :: int
  defines "Y \<equiv> y - 1"
  defines "a \<equiv> Y div 400" and "b \<equiv> Y mod 400 div 100" and "c \<equiv> Y mod 100 div 4" and "e \<equiv> Y mod 4"
  shows "days_before_year y = 146097 * a + (36524 * b + (1461 * c + 365 * e))"
proof -
  note D = year_digits [of Y, folded a_def b_def c_def e_def]
  have "days_before_year y = Y * 365 + Y div 4 - Y div 100 + Y div 400"
    by (simp add: days_before_year_def Y_def Let_def)
  also have "\<dots> = (a * 400 + b * 100 + c * 4 + e) * 365 + (a * 100 + b * 25 + c) - (a * 4 + b) + a"
    using D by (simp add: a_def)
  also have "\<dots> = 146097 * a + (36524 * b + (1461 * c + 365 * e))" by (simp add: algebra_simps)
  finally show ?thesis .
qed

lemma is_leap_digits:
  fixes y :: int
  defines "Y \<equiv> y - 1"
  defines "b \<equiv> Y mod 400 div 100" and "c \<equiv> Y mod 100 div 4" and "e \<equiv> Y mod 4"
  shows "is_leap y \<longleftrightarrow> e = 3 \<and> (c \<noteq> 24 \<or> b = 3)"
proof -
  note D = year_digits [of Y, folded b_def c_def e_def]
  have y: "y = Y + 1" by (simp add: Y_def)
  have m4: "y mod 4 = (e + 1) mod 4" unfolding y e_def by (simp add: mod_simps)
  have S: "Y mod 100 = 4 * c + e" using mult_div_mod_eq [of 4 "Y mod 100"]
    by (simp add: c_def e_def mod_mod_cancel)
  have R: "Y mod 400 = 100 * b + (4 * c + e)" using mult_div_mod_eq [of 100 "Y mod 400"]
    by (simp add: b_def S [symmetric] mod_mod_cancel)
  have m100: "y mod 100 = (4 * c + e + 1) mod 100" unfolding y S [symmetric] by (simp add: mod_simps)
  have m400: "y mod 400 = (100 * b + (4 * c + e) + 1) mod 400" unfolding y R [symmetric]
    by (simp add: mod_simps)
  have e: "0 \<le> e" "e < 4" and c: "0 \<le> c" "c < 25" and b: "0 \<le> b" "b < 4" using D by simp_all
  have l4: "y mod 4 = 0 \<longleftrightarrow> e = 3"
  proof (cases "e = 3")
    case True then show ?thesis by (simp add: m4)
  next
    case False
    then have "0 \<le> e + 1" "e + 1 < 4" using e by linarith+
    then have "(e + 1) mod 4 = e + 1" by simp
    with False e show ?thesis by (simp add: m4)
  qed
  have l100: "y mod 100 = 0 \<longleftrightarrow> c = 24 \<and> e = 3"
  proof (cases "c = 24 \<and> e = 3")
    case True then show ?thesis by (simp add: m100)
  next
    case False
    then have "0 \<le> 4 * c + e + 1" "4 * c + e + 1 < 100" using e c by linarith+
    then have "(4 * c + e + 1) mod 100 = 4 * c + e + 1" by simp
    with False e c show ?thesis unfolding m100 by linarith
  qed
  have l400: "y mod 400 = 0 \<longleftrightarrow> b = 3 \<and> c = 24 \<and> e = 3"
  proof (cases "b = 3 \<and> c = 24 \<and> e = 3")
    case True then show ?thesis by (simp add: m400)
  next
    case False
    then have "0 \<le> 100 * b + (4 * c + e) + 1" "100 * b + (4 * c + e) + 1 < 400" using e c b by linarith+
    then have "(100 * b + (4 * c + e) + 1) mod 400 = 100 * b + (4 * c + e) + 1" by simp
    with False e c b show ?thesis unfolding m400 by linarith
  qed
  show ?thesis unfolding is_leap_def l4 l100 l400 by auto
qed


lemma ymd2ord_june: "ymd2ord y 6 d = days_before_year y + (151 + (if is_leap y then 1 else 0)) + d"
  by (simp add: ymd2ord_def days_before_month_def DAYS_BEFORE_MONTH_def)

lemma ord2ymd_ymd2ord_june:
  assumes d: "1 \<le> d" "d \<le> 30"
  shows "ord2ymd (ymd2ord y 6 d) = \<lparr>year = y, month = 6, day = d\<rparr>"
proof -
  define Y where "Y = y - 1"
  define a b c e where "a = Y div 400" and "b = Y mod 400 div 100" and "c = Y mod 100 div 4"
    and "e = Y mod 4"
  define L :: int where "L = (if is_leap y then 1 else 0)"
  define r where "r = 150 + L + d"
  note D = year_digits [of Y, folded a_def b_def c_def e_def]
  have leap: "is_leap y \<longleftrightarrow> e = 3 \<and> (c \<noteq> 24 \<or> b = 3)"
    using is_leap_digits [of y] by (simp add: Y_def b_def c_def e_def)
  have dby: "days_before_year y = 146097 * a + (36524 * b + (1461 * c + 365 * e))"
    using days_before_year_digits [of y] by (simp add: Y_def a_def b_def c_def e_def)
  have L: "0 \<le> L" "L \<le> 1" by (simp_all add: L_def)
  have r: "0 \<le> r" "r < 365" "151 \<le> r" "r \<le> 181" using d L by (simp_all add: r_def)
  have y: "a * 400 + 1 + b * 100 + c * 4 + e = y" using D by (simp add: Y_def)
  have ord: "ymd2ord y 6 d = 146097 * a + (36524 * b + (1461 * c + (365 * e + r))) + 1"
    by (simp add: ymd2ord_june dby r_def L_def)
  have split: "ord2ymd (ymd2ord y 6 d) =
     (let leapyear = is_leap y;
          m = (r + 50) div 32;
          preceding = DAYS_BEFORE_MONTH ! nat m + (if m > 2 \<and> leapyear then 1 else 0)
      in if preceding > r
         then let m' = m - 1;
                  preceding' = preceding
                     - (DAYS_IN_MONTH ! nat m' + (if m' = 2 \<and> leapyear then 1 else 0))
              in \<lparr>year = y, month = m', day = r - preceding' + 1\<rparr>
         else \<lparr>year = y, month = m, day = r - preceding + 1\<rparr>)"
    unfolding ord using D r(1,2)
    by (subst ord2ymd_split) (simp_all only: Let_def y leap)
  show ?thesis
  proof (cases "r \<le> 173")
    case True
    have "r + 50 = 32 * 6 + (r - 142)" by simp
    moreover have "0 \<le> r - 142" "r - 142 < 32" using r True by simp_all
    ultimately have m: "(r + 50) div 32 = 6" using divmod_step(1) [of "r - 142" 32 6] by simp
    show ?thesis unfolding split Let_def m using d
      by (simp add: DAYS_BEFORE_MONTH_def DAYS_IN_MONTH_def r_def L_def)
  next
    case False
    have "r + 50 = 32 * 7 + (r - 174)" by simp
    moreover have "0 \<le> r - 174" "r - 174 < 32" using r False by simp_all
    ultimately have m: "(r + 50) div 32 = 7" using divmod_step(1) [of "r - 174" 32 7] by simp
    show ?thesis unfolding split Let_def m using d
      by (simp add: DAYS_BEFORE_MONTH_def DAYS_IN_MONTH_def r_def L_def)
  qed
qed


lemma weekday_june:
  "weekday \<lparr>year = y, month = 6, day = k\<rparr> = (ymd2ord y 6 0 + 6 + k) mod 7"
  by (simp add: weekday_def toordinal_def ymd2ord_def algebra_simps)

lemma days_in_month_june: "days_in_month y 6 = 30"
  by (simp add: days_in_month_def DAYS_IN_MONTH_def)

lemma first_saturday_from_june:
  assumes y: "1 \<le> y" "y \<le> 9999"
    and k: "1 \<le> k" "k \<le> ks" "ks \<le> 7"
    and sat: "weekday \<lparr>year = y, month = 6, day = ks\<rparr> = 5"
    and before: "\<forall>j. k \<le> j \<and> j < ks \<longrightarrow> weekday \<lparr>year = y, month = 6, day = j\<rparr> \<noteq> 5"
  shows "first_saturday_from \<lparr>year = y, month = 6, day = k\<rparr> = Inr \<lparr>year = y, month = 6, day = ks\<rparr>"
  using k before
proof (induction "nat (ks - k)" arbitrary: k)
  case 0
  then have "k = ks" by simp
  with sat show ?case by (simp add: first_saturday_from.simps)
next
  case (Suc n)
  then have lt: "k < ks" by simp
  with Suc.prems have ns: "weekday \<lparr>year = y, month = 6, day = k\<rparr> \<noteq> 5" by simp
  have step: "replace_day \<lparr>year = y, month = 6, day = k\<rparr> (k + 1) = Inr \<lparr>year = y, month = 6, day = k + 1\<rparr>"
    using y lt Suc.prems(1,3)
    by (simp add: replace_day_def mk_date_def MINYEAR_def MAXYEAR_def days_in_month_june)
  have "first_saturday_from \<lparr>year = y, month = 6, day = k + 1\<rparr> = Inr \<lparr>year = y, month = 6, day = ks\<rparr>"
  proof (rule Suc.hyps(1))
    show "n = nat (ks - (k + 1))" using Suc.hyps(2) by simp
    show "1 \<le> k + 1" using Suc.prems(1) by simp
    show "k + 1 \<le> ks" using lt by simp
    show "ks \<le> 7" by (rule Suc.prems(3))
    show "\<forall>j. k + 1 \<le> j \<and> j < ks \<longrightarrow> weekday \<lparr>year = y, month = 6, day = j\<rparr> \<noteq> 5"
      using Suc.prems(4) by simp
  qed
  then show ?case
    using ns step by (subst first_saturday_from.simps) simp
qed

lemma first_saturday_exists:
  fixes c0 :: int
  shows "\<exists>ks. 1 \<le> ks \<and> ks \<le> 7 \<and> (c0 + ks) mod 7 = 5 \<and> (\<forall>j. 1 \<le> j \<and> j < ks \<longrightarrow> (c0 + j) mod 7 \<noteq> 5)"
proof -
  define ks where "ks = (4 - c0) mod 7 + 1"
  have b: "1 \<le> ks" "ks \<le> 7" by (simp_all add: ks_def)
  have m: "(c0 + ks) mod 7 = 5"
  proof -
    have "(c0 + ks) mod 7 = (c0 + 1 + (4 - c0) mod 7) mod 7" by (simp add: ks_def algebra_simps)
    also have "\<dots> = (c0 + 1 + (4 - c0)) mod 7" by (simp only: mod_add_right_eq)
    also have "\<dots> = 5" by simp
    finally show ?thesis .
  qed
  have u: "(c0 + j) mod 7 \<noteq> 5" if "1 \<le> j" "j < ks" for j
  proof
    assume "(c0 + j) mod 7 = 5"
    with m have "(c0 + ks) mod 7 = (c0 + j) mod 7" by simp
    then have "7 dvd (c0 + ks) - (c0 + j)" by (simp only: mod_eq_dvd_iff)
    then have "7 dvd ks - j" by simp
    moreover have "0 < ks - j" "ks - j < 7" using that b by simp_all
    ultimately show False using zdvd_not_zless by blast 
  qed
  show ?thesis using b m u by blast
qed


lemma days_before_year_bounds:
  assumes "1 \<le> y" "y \<le> 9999"
  shows "0 \<le> days_before_year y" "days_before_year y \<le> 3651794"
proof -
  define Y where "Y = y - 1"
  have Y: "0 \<le> Y" "Y \<le> 9998" using assms by (simp_all add: Y_def)
  have d: "days_before_year y = Y * 365 + Y div 4 - Y div 100 + Y div 400"
    by (simp add: days_before_year_def Y_def Let_def)
  have q4: "4 * (Y div 4) \<le> Y" using mult_div_mod_eq [of 4 Y] pos_mod_sign [of 4 Y] by linarith
  have q400: "400 * (Y div 400) \<le> Y"
    using mult_div_mod_eq [of 400 Y] pos_mod_sign [of 400 Y] by linarith
  have q100: "0 \<le> Y div 100" using Y by (simp add: pos_imp_zdiv_nonneg_iff)
  have q400': "0 \<le> Y div 400" using Y by (simp add: pos_imp_zdiv_nonneg_iff)
  have q14: "Y div 100 \<le> Y div 4" using Y by (intro zdiv_mono2) simp_all
  show "0 \<le> days_before_year y" unfolding d using Y q14 q400' by linarith
  show "days_before_year y \<le> 3651794" unfolding d using Y q4 q400 q100 by linarith
qed

lemma date_add_days_june:
  assumes y: "1 \<le> y" "y \<le> 9999" and k: "1 \<le> k" "k + n \<le> 30" "0 \<le> n"
  shows "date_add_days \<lparr>year = y, month = 6, day = k\<rparr> n = Inr \<lparr>year = y, month = 6, day = k + n\<rparr>"
proof -
  have o: "toordinal \<lparr>year = y, month = 6, day = k\<rparr> + n = ymd2ord y 6 (k + n)"
    by (simp add: toordinal_def ymd2ord_def)
  have "0 < ymd2ord y 6 (k + n)" "ymd2ord y 6 (k + n) \<le> MAXORDINAL"
    using days_before_year_bounds [OF y] k by (simp_all add: ymd2ord_june MAXORDINAL_def)
  moreover have "ord2ymd (ymd2ord y 6 (k + n)) = \<lparr>year = y, month = 6, day = k + n\<rparr>"
    using k by (intro ord2ymd_ymd2ord_june) simp_all
  ultimately show ?thesis by (simp add: date_add_days_def o Let_def)
qed

lemma fourth_saturday_june:
  assumes y: "1 \<le> y" "y \<le> 9999"
  shows "\<exists>k. 1 \<le> k \<and> k \<le> 7
     \<and> weekday \<lparr>year = y, month = 6, day = k\<rparr> = 5
     \<and> (\<forall>j. 1 \<le> j \<and> j < k \<longrightarrow> weekday \<lparr>year = y, month = 6, day = j\<rparr> \<noteq> 5)
     \<and> fourth_full_weekend_saturday_of_june y = Inr \<lparr>year = y, month = 6, day = k + 21\<rparr>
     \<and> weekday \<lparr>year = y, month = 6, day = k + 21\<rparr> = 5"
proof -
  from first_saturday_exists [of "ymd2ord y 6 0 + 6"]
  obtain k where k: "1 \<le> k" "k \<le> 7"
    and sat: "weekday \<lparr>year = y, month = 6, day = k\<rparr> = 5"
    and before: "\<forall>j. 1 \<le> j \<and> j < k \<longrightarrow> weekday \<lparr>year = y, month = 6, day = j\<rparr> \<noteq> 5"
    unfolding weekday_june by blast
  have d0: "mk_date y 6 1 = Inr \<lparr>year = y, month = 6, day = 1\<rparr>"
    using y by (simp add: mk_date_def MINYEAR_def MAXYEAR_def days_in_month_june)
  have fs: "first_saturday_from \<lparr>year = y, month = 6, day = 1\<rparr> = Inr \<lparr>year = y, month = 6, day = k\<rparr>"
    using y k sat before by (intro first_saturday_from_june) simp_all
  have "k + 21 \<le> 30" "(0::int) \<le> 21" using k by simp_all
  then have add: "date_add_days \<lparr>year = y, month = 6, day = k\<rparr> 21 = Inr \<lparr>year = y, month = 6, day = k + 21\<rparr>"
    by (rule date_add_days_june [OF y k(1)])
  have res: "fourth_full_weekend_saturday_of_june y = Inr \<lparr>year = y, month = 6, day = k + 21\<rparr>"
    by (simp add: fourth_full_weekend_saturday_of_june_def d0 fs add)
  have "weekday \<lparr>year = y, month = 6, day = k + 21\<rparr> = (ymd2ord y 6 0 + 6 + k + 21) mod 7"
    by (simp add: weekday_june add.assoc)
  also have "\<dots> = ((ymd2ord y 6 0 + 6 + k) + 7 * 3) mod 7" by simp
  also have "\<dots> = (ymd2ord y 6 0 + 6 + k) mod 7" by (simp only: mod_mult_self2)
  also have "\<dots> = 5" using sat by (simp add: weekday_june)
  finally show ?thesis using k sat before res by blast
qed


lemma tag_field_day_times: "start (tag_field_day e) = start e" "endt (tag_field_day e) = endt e"
  by (simp_all add: tag_field_day_def add_category_def Let_def)

lemma add_category_times: "start (add_category c e) = start e" "endt (add_category c e) = endt e"
  by (simp_all add: add_category_def)

lemma field_day_event_span:
  assumes y: "1 \<le> y" "y \<le> 9999"
    and f: "fourth_full_weekend_saturday_of_june y = Inr \<lparr>year = y, month = 6, day = k + 21\<rparr>"
    and k: "1 \<le> k" "k \<le> 7"
  shows "\<exists>e. field_day_event y = Inr e
     \<and> start e = utc_midnight \<lparr>year = y, month = 6, day = k + 21\<rparr>
     \<and> endt e = start e + 2 * 86400 * 1000000
     \<and> endt e = utc_midnight \<lparr>year = y, month = 6, day = k + 23\<rparr>"
proof -
  let ?d = "\<lparr>year = y, month = 6, day = k + 21\<rparr>"
  let ?s = "utc_midnight ?d"
  have mk: "mk_date y 6 (k + 21) = Inr ?d"
    using y k by (simp add: mk_date_def MINYEAR_def MAXYEAR_def days_in_month_june)
  have s: "?s = (days_before_year y + (151 + (if is_leap y then 1 else 0)) + (k + 21) - 1) * usec_per_day"
    by (simp add: utc_midnight_def toordinal_def ymd2ord_june)
  have pos: "0 < usec_per_day" by (simp add: usec_per_day_def usec_per_second_def)
  have td: "timedelta_days 2 = 2 * usec_per_day" by (simp add: timedelta_days_def)
  have sum: "?s + timedelta_days 2 = (days_before_year y + (151 + (if is_leap y then 1 else 0)) + (k + 21) + 1) * usec_per_day"
    unfolding s td by (simp add: algebra_simps)
  have lo: "0 \<le> ?s + timedelta_days 2"
    unfolding sum using days_before_year_bounds(1) [OF y] k pos by (intro mult_nonneg_nonneg) simp_all
  have hi: "?s + timedelta_days 2 < MAXORDINAL * usec_per_day"
    unfolding sum using days_before_year_bounds(2) [OF y] k pos
    by (intro mult_strict_right_mono) (simp_all add: MAXORDINAL_def)
  have add: "dt_add ?s (timedelta_days 2) = Inr (?s + timedelta_days 2)"
    using lo hi by (simp add: dt_add_def Let_def)
  have two: "?s + timedelta_days 2 = ?s + 2 * 86400 * 1000000"
    by (simp add: timedelta_days_def usec_per_day_def usec_per_second_def)
  have mon: "?s + timedelta_days 2 = utc_midnight \<lparr>year = y, month = 6, day = k + 23\<rparr>"
    unfolding sum by (simp add: utc_midnight_def toordinal_def ymd2ord_june)
  define e where "e = tag_field_day (add_category ''field-day''
      (mk_event ''ARRL Field Day'' ?s (?s + timedelta_days 2)
         (Some ''https://www.arrl.org/field-day'')
         (Some ''Computed as the 4th full weekend of June (Sat-Sun).'') ''arrl-field-day''))"
  have fe: "field_day_event y = Inr e"
    by (simp add: field_day_event_def f mk add Let_def e_def)
  have se: "start e = ?s" "endt e = ?s + timedelta_days 2"
    by (simp_all add: e_def tag_field_day_times add_category_times mk_event_def)
  show ?thesis
    using fe se two mon by (intro exI [of _ e]) (simp only: simp_thms)
qed

lemma field_day_loop_members:
  assumes "field_day_loop now yrs out = Inr res" "e \<in> set res"
  shows "e \<in> set out \<or> (\<exists>yr \<in> set yrs. field_day_event yr = Inr e \<and> is_in_window now e)"
  using assms
proof (induction yrs arbitrary: out)
  case Nil then show ?case by simp
next
  case (Cons yr yrs)
  from Cons.prems(1) obtain ev where ev: "field_day_event yr = Inr ev"
    and rest: "field_day_loop now yrs (if is_in_window now ev then out @ [ev] else out) = Inr res"
    by (auto split: sum.splits)
  from Cons.IH [OF rest Cons.prems(2)] ev show ?case
    by (auto split: if_splits)
qed


text \<open>
  C6. For every year from 1 to 9999 the rule returns the Saturday three weeks after the first
  Saturday of June: the first Saturday is June \<open>k\<close> for some \<open>k\<close> from 1 to 7, no earlier day of
  June is a Saturday, and the result is June \<open>k + 21\<close>, a Saturday again. The generated event
  starts at the UTC midnight of that day and ends two days later, at the midnight of the
  Monday, and every event that \<open>add_field_day_fixed\<close> returns is such an event of the current
  or the next year that lies in the window. In 2024 June 1 is a Saturday and the result is
  June 22.
\<close>

theorem field_day_rule:
  "(1 \<le> yr \<and> yr \<le> 9999 \<longrightarrow>
      (\<exists>k e. 1 \<le> k \<and> k \<le> 7
         \<and> weekday \<lparr>year = yr, month = 6, day = k\<rparr> = 5
         \<and> (\<forall>j. 1 \<le> j \<and> j < k \<longrightarrow> weekday \<lparr>year = yr, month = 6, day = j\<rparr> \<noteq> 5)
         \<and> fourth_full_weekend_saturday_of_june yr = Inr \<lparr>year = yr, month = 6, day = k + 21\<rparr>
         \<and> weekday \<lparr>year = yr, month = 6, day = k + 21\<rparr> = 5
         \<and> field_day_event yr = Inr e
         \<and> start e = utc_midnight \<lparr>year = yr, month = 6, day = k + 21\<rparr>
         \<and> endt e = start e + 2 * 86400 * 1000000
         \<and> endt e = utc_midnight \<lparr>year = yr, month = 6, day = k + 23\<rparr>))
   \<and> (add_field_day_fixed now = Inr out \<longrightarrow>
        (\<forall>e \<in> set out. is_in_window now e
           \<and> (field_day_event (year (date_of now)) = Inr e
              \<or> field_day_event (year (date_of now) + 1) = Inr e)))
   \<and> weekday \<lparr>year = 2024, month = 6, day = 1\<rparr> = 5
   \<and> fourth_full_weekend_saturday_of_june 2024 = Inr \<lparr>year = 2024, month = 6, day = 22\<rparr>"
proof (intro conjI impI ballI)
  assume yr: "1 \<le> yr \<and> yr \<le> 9999"
  then have y: "1 \<le> yr" "yr \<le> 9999" by simp_all
  from fourth_saturday_june [OF y] obtain k where k: "1 \<le> k" "k \<le> 7"
    and sat: "weekday \<lparr>year = yr, month = 6, day = k\<rparr> = 5"
    and before: "\<forall>j. 1 \<le> j \<and> j < k \<longrightarrow> weekday \<lparr>year = yr, month = 6, day = j\<rparr> \<noteq> 5"
    and f: "fourth_full_weekend_saturday_of_june yr = Inr \<lparr>year = yr, month = 6, day = k + 21\<rparr>"
    and sat4: "weekday \<lparr>year = yr, month = 6, day = k + 21\<rparr> = 5"
    by blast
  from field_day_event_span [OF y f k] obtain e where e: "field_day_event yr = Inr e"
    "start e = utc_midnight \<lparr>year = yr, month = 6, day = k + 21\<rparr>"
    "endt e = start e + 2 * 86400 * 1000000"
    "endt e = utc_midnight \<lparr>year = yr, month = 6, day = k + 23\<rparr>"
    by blast
  show "\<exists>k e. 1 \<le> k \<and> k \<le> 7
         \<and> weekday \<lparr>year = yr, month = 6, day = k\<rparr> = 5
         \<and> (\<forall>j. 1 \<le> j \<and> j < k \<longrightarrow> weekday \<lparr>year = yr, month = 6, day = j\<rparr> \<noteq> 5)
         \<and> fourth_full_weekend_saturday_of_june yr = Inr \<lparr>year = yr, month = 6, day = k + 21\<rparr>
         \<and> weekday \<lparr>year = yr, month = 6, day = k + 21\<rparr> = 5
         \<and> field_day_event yr = Inr e
         \<and> start e = utc_midnight \<lparr>year = yr, month = 6, day = k + 21\<rparr>
         \<and> endt e = start e + 2 * 86400 * 1000000
         \<and> endt e = utc_midnight \<lparr>year = yr, month = 6, day = k + 23\<rparr>"
    using k sat before f sat4 e by (intro exI [of _ k] exI [of _ e]) (simp only: simp_thms)
next
  fix e assume "add_field_day_fixed now = Inr out" "e \<in> set out"
  then have "e \<in> set [] \<or> (\<exists>yr \<in> set [year (date_of now), year (date_of now) + 1].
      field_day_event yr = Inr e \<and> is_in_window now e)"
    unfolding add_field_day_fixed_def by (rule field_day_loop_members)
  then show "is_in_window now e" 
    and "field_day_event (year (date_of now)) = Inr e \<or> field_day_event (year (date_of now) + 1) = Inr e"
    by auto
next
  show "weekday \<lparr>year = 2024, month = 6, day = 1\<rparr> = 5" by code_simp
next
  show "fourth_full_weekend_saturday_of_june 2024 = Inr \<lparr>year = 2024, month = 6, day = 22\<rparr>"
    by code_simp
qed

theorem field_day_rule_witness:
  "(\<exists>k e. 1 \<le> k \<and> k \<le> 7
         \<and> weekday \<lparr>year = 2025, month = 6, day = k\<rparr> = 5
         \<and> fourth_full_weekend_saturday_of_june 2025 = Inr \<lparr>year = 2025, month = 6, day = k + 21\<rparr>
         \<and> field_day_event 2025 = Inr e
         \<and> endt e = start e + 2 * 86400 * 1000000)
   \<and> (\<exists>out. add_field_day_fixed 63852796800000000 = Inr out \<and> length out = 1
        \<and> is_in_window 63852796800000000 (hd out))"
proof -
  have a: "add_field_day_fixed 63852796800000000 = Inr [\<lparr>title = ''ARRL Field Day'', start = 63854611200000000,
         endt = 63854784000000000,
         url = Some ''https://www.arrl.org/field-day'',
         description = Some ''Computed as the 4th full weekend of June (Sat-Sun).'',
         categories = [''field-day''], source = ''arrl-field-day''\<rparr>]"
    by code_simp
  show ?thesis
    using field_day_rule [of 2025 63852796800000000] a
    by (simp del: ex_simps) blast
qed

section \<open>Keyword tagging is additive\<close>




lemma upper_space: "upper ('' '' @ d) = '' '' @ upper d"
  by (simp add: upper_def upper_char_def)

























section \<open>Escaping, line search and the encoded calendar\<close>

lemma replace_Nil [simp]: "old \<noteq> [] \<Longrightarrow> replace old new [] = []"
  by (simp add: replace.simps)

lemma replace_char:
  "replace [a] new s = concat (map (\<lambda>c. if c = a then new else [c]) s)"
  by (induction s) (simp_all add: replace.simps)

lemma ics_escape_concat: "ics_escape s = concat (map esc_char s)"
proof -
  have "ics_escape s = concat (map esc_char s)"
    unfolding ics_escape_def replace_char
    by (induction s) (simp_all add: esc_char_def)
  then show ?thesis .
qed

lemma ics_escape_no_LF: "LF \<notin> set (ics_escape s)"
  by (induction s) (simp_all add: ics_escape_concat esc_char_def)

lemma ics_escape_Nil [simp]: "ics_escape [] = []"
  by (simp add: ics_escape_concat)

lemma ics_escape_Cons: "ics_escape (c # s) = esc_char c @ ics_escape s"
  by (simp add: ics_escape_concat)

lemma replace2_skip: "c \<noteq> x \<Longrightarrow> replace [x, y] new (c # rest) = c # replace [x, y] new rest"
  by (subst replace.simps) simp

lemma replace2_hit: "replace [x, y] new (x # y # rest) = new @ replace [x, y] new rest"
  by (subst replace.simps) simp

lemma replace2_miss: "c \<noteq> y \<Longrightarrow> replace [x, y] new (x # c # rest) = x # replace [x, y] new (c # rest)"
  by (subst replace.simps) simp

lemma replace2_single: "replace [x, y] new [c] = [c]"
  by (subst replace.simps) simp

lemma replace2_lead:
  assumes "rest = [] \<or> hd rest \<noteq> y"
  shows "replace [x, y] new (x # rest) = x # replace [x, y] new rest"
proof (cases rest)
  case Nil then show ?thesis by (simp add: replace2_single)
next
  case (Cons c cs)
  with assms have "c \<noteq> y" by simp
  then show ?thesis unfolding Cons by (rule replace2_miss)
qed

lemma replace_tokens:
  assumes step: "\<And>c s. P (c # s) \<Longrightarrow>
      replace pat new (f c @ concat (map f s)) = g c @ replace pat new (concat (map f s))"
    and sub: "\<And>c s. P (c # s) \<Longrightarrow> P s" and pat: "pat \<noteq> []"
  shows "P s \<Longrightarrow> replace pat new (concat (map f s)) = concat (map g s)"
proof (induction s)
  case Nil then show ?case using pat by simp
next
  case (Cons c s)
  from step [OF Cons.prems] Cons.IH [OF sub [OF Cons.prems]] show ?case by simp
qed

lemma hd_tokens:
  assumes "\<And>c. f c \<noteq> []" "s \<noteq> []"
  shows "concat (map f s) \<noteq> []" "hd (concat (map f s)) = hd (f (hd s))"
  using assms by (cases s; simp)+

lemma esc_char_cases:
  "esc_char BSL = [BSL, BSL]" "esc_char LF = [BSL, CHR ''n'']"
  "esc_char (CHR '','') = [BSL, CHR '','']" "esc_char (CHR '';'') = [BSL, CHR '';'']"
  "c \<noteq> BSL \<Longrightarrow> c \<noteq> LF \<Longrightarrow> c \<noteq> CHR '','' \<Longrightarrow> c \<noteq> CHR '';'' \<Longrightarrow> esc_char c = [c]"
  by (simp_all add: esc_char_def)

lemma esc_char_hd: "esc_char c \<noteq> []" "hd (esc_char c) = CHR ''n'' \<longleftrightarrow> c = CHR ''n''"
  by (auto simp: esc_char_def)

lemma unescape_step_A:
  assumes "bsl_n_free s"
  shows "replace [BSL, CHR ''n''] [LF] (concat (map esc_char s)) = concat (map tokA s)"
  using _ _ _ assms
proof (rule replace_tokens [where P = bsl_n_free])
  show "[BSL, CHR ''n''] \<noteq> []" by simp
next
  fix c s assume "bsl_n_free (c # s)"
  then show "bsl_n_free s" by (cases s) simp_all
next
  fix c s assume free: "bsl_n_free (c # s)"
  let ?T = "concat (map esc_char s)"
  let ?r = "replace [BSL, CHR ''n''] [LF]"
  consider "c = BSL" | "c = LF" | "c = CHR '',''" | "c = CHR '';''"
    | "c \<noteq> BSL" "c \<noteq> LF" "c \<noteq> CHR '',''" "c \<noteq> CHR '';''" by blast
  then show "?r (esc_char c @ ?T) = tokA c @ ?r ?T"
  proof cases
    case 1
    have "?T = [] \<or> hd ?T \<noteq> CHR ''n''"
    proof (cases s)
      case Nil then show ?thesis by simp
    next
      case (Cons b cs)
      with free 1 have "b \<noteq> CHR ''n''" by simp
      then show ?thesis unfolding Cons by (auto simp: esc_char_def)
    qed
    then have "?r (BSL # ?T) = BSL # ?r ?T" by (rule replace2_lead)
    then have "?r (BSL # BSL # ?T) = BSL # BSL # ?r ?T" by (simp add: replace2_miss)
    then show ?thesis using 1 by (simp add: esc_char_cases tokA_def)
  next
    case 2
    then show ?thesis by (simp add: esc_char_cases tokA_def replace2_hit)
  next
    case 3
    then show ?thesis by (simp add: esc_char_cases tokA_def replace2_miss replace2_skip)
  next
    case 4
    then show ?thesis by (simp add: esc_char_cases tokA_def replace2_miss replace2_skip)
  next
    case 5
    then show ?thesis by (simp add: esc_char_cases tokA_def replace2_skip)
  qed
qed

lemma tokA_cases:
  "tokA BSL = [BSL, BSL]" "tokA LF = [LF]"
  "tokA (CHR '','') = [BSL, CHR '','']" "tokA (CHR '';'') = [BSL, CHR '';'']"
  "c \<noteq> BSL \<Longrightarrow> c \<noteq> LF \<Longrightarrow> c \<noteq> CHR '','' \<Longrightarrow> c \<noteq> CHR '';'' \<Longrightarrow> tokA c = [c]"
  by (simp_all add: tokA_def esc_char_def)

lemma tokB_cases:
  "tokB BSL = [BSL, BSL]" "tokB LF = [LF]"
  "tokB (CHR '','') = '',''" "tokB (CHR '';'') = [BSL, CHR '';'']"
  "c \<noteq> BSL \<Longrightarrow> c \<noteq> LF \<Longrightarrow> c \<noteq> CHR '','' \<Longrightarrow> c \<noteq> CHR '';'' \<Longrightarrow> tokB c = [c]"
  by (simp_all add: tokB_def tokA_def esc_char_def)

lemma tokC_cases:
  "tokC BSL = [BSL, BSL]" "c \<noteq> BSL \<Longrightarrow> tokC c = [c]"
  by (simp_all add: tokC_def)

lemma tokA_head: "concat (map tokA s) = [] \<or> hd (concat (map tokA s)) \<noteq> CHR '',''"
  by (cases s) (auto simp: tokA_def esc_char_def)

lemma tokB_head: "concat (map tokB s) = [] \<or> hd (concat (map tokB s)) \<noteq> CHR '';''"
  by (cases s) (auto simp: tokB_def tokA_def esc_char_def)

lemma unescape_step_B:
  "replace [BSL, CHR '',''] '','' (concat (map tokA s)) = concat (map tokB s)"
  using _ _ _ TrueI
proof (rule replace_tokens [where P = "\<lambda>_. True"])
  show "[BSL, CHR '',''] \<noteq> []" by simp
next
  show True by simp
next
  fix c s
  let ?T = "concat (map tokA s)"
  let ?r = "replace [BSL, CHR '',''] '',''"
  consider "c = BSL" | "c = LF" | "c = CHR '',''" | "c = CHR '';''"
    | "c \<noteq> BSL" "c \<noteq> LF" "c \<noteq> CHR '',''" "c \<noteq> CHR '';''" by blast
  then show "?r (tokA c @ ?T) = tokB c @ ?r ?T"
  proof cases
    case 1
    have "?r (BSL # ?T) = BSL # ?r ?T" using tokA_head by (rule replace2_lead)
    then have "?r (BSL # BSL # ?T) = BSL # BSL # ?r ?T" by (simp add: replace2_miss)
    then show ?thesis using 1 by (simp add: tokA_cases tokB_cases)
  next
    case 2
    then show ?thesis by (simp add: tokA_cases tokB_cases replace2_skip)
  next
    case 3
    then show ?thesis by (simp add: tokA_cases tokB_cases replace2_hit)
  next
    case 4
    then show ?thesis by (simp add: tokA_cases tokB_cases replace2_miss replace2_skip)
  next
    case 5
    then show ?thesis by (simp add: tokA_cases tokB_cases replace2_skip)
  qed
qed

lemma unescape_step_C:
  "replace [BSL, CHR '';''] '';'' (concat (map tokB s)) = concat (map tokC s)"
  using _ _ _ TrueI
proof (rule replace_tokens [where P = "\<lambda>_. True"])
  show "[BSL, CHR '';''] \<noteq> []" by simp
next
  show True by simp
next
  fix c s
  let ?T = "concat (map tokB s)"
  let ?r = "replace [BSL, CHR '';''] '';''"
  consider "c = BSL" | "c = LF" | "c = CHR '',''" | "c = CHR '';''"
    | "c \<noteq> BSL" "c \<noteq> LF" "c \<noteq> CHR '',''" "c \<noteq> CHR '';''" by blast
  then show "?r (tokB c @ ?T) = tokC c @ ?r ?T"
  proof cases
    case 1
    have "?r (BSL # ?T) = BSL # ?r ?T" using tokB_head by (rule replace2_lead)
    then have "?r (BSL # BSL # ?T) = BSL # BSL # ?r ?T" by (simp add: replace2_miss)
    then show ?thesis using 1 by (simp add: tokB_cases tokC_cases)
  next
    case 2
    then show ?thesis by (simp add: tokB_cases tokC_cases replace2_skip)
  next
    case 3
    then show ?thesis by (simp add: tokB_cases tokC_cases replace2_skip)
  next
    case 4
    then show ?thesis by (simp add: tokB_cases tokC_cases replace2_hit)
  next
    case 5
    then show ?thesis by (simp add: tokB_cases tokC_cases replace2_skip)
  qed
qed

lemma unescape_step_D:
  "replace [BSL, BSL] [BSL] (concat (map tokC s)) = concat (map (\<lambda>c. [c]) s)"
  using _ _ _ TrueI
proof (rule replace_tokens [where P = "\<lambda>_. True"])
  show "[BSL, BSL] \<noteq> []" by simp
next
  show True by simp
next
  fix c s
  show "replace [BSL, BSL] [BSL] (tokC c @ concat (map tokC s))
      = [c] @ replace [BSL, BSL] [BSL] (concat (map tokC s))"
    by (cases "c = BSL") (simp_all add: tokC_cases replace2_hit replace2_skip)
qed

lemma contains_bsl_n_free: "bsl_n_free s \<longleftrightarrow> \<not> contains s [BSL, CHR ''n'']"
  by (induction s rule: bsl_n_free.induct) auto

lemma unfold_ics_text_ics_escape:
  assumes "\<not> contains s [BSL, CHR ''n'']"
  shows "unfold_ics_text (ics_escape s) = strip s"
proof -
  have "bsl_n_free s" using assms by (simp add: contains_bsl_n_free)
  then have "replace [BSL, BSL] [BSL]
                (replace [BSL, CHR '';''] '';''
                   (replace [BSL, CHR '',''] '',''
                      (replace [BSL, CHR ''n''] [LF] (ics_escape s)))) = s"
    by (simp add: ics_escape_concat unescape_step_A unescape_step_B unescape_step_C unescape_step_D)
  then show ?thesis by (simp add: unfold_ics_text_def)
qed

lemma join_lines_text: "ls \<noteq> [] \<Longrightarrow> join [CR, LF] ls @ [CR, LF] = lines_text ls"
  by (induction "[CR, LF]" ls rule: join.induct) (simp_all add: lines_text_def)

lemma lines_text_simps [simp]:
  "lines_text [] = []" "lines_text (l # ls) = l @ CR # LF # lines_text ls"
  "lines_text (xs @ ys) = lines_text xs @ lines_text ys"
  by (simp_all add: lines_text_def)

subsection \<open>unfold_ics leaves the encoder's text as it is\<close>

lemma re_sub_fold_line:
  assumes "LF \<notin> set l" "rest = [] \<or> (hd rest \<noteq> CHR '' '' \<and> hd rest \<noteq> TAB)"
  shows "re_sub match_fold [] (l @ CR # LF # rest) = l @ CR # LF # re_sub match_fold [] rest"
  using assms(1)
proof (induction l)
  case Nil
  have a: "match_fold (CR # LF # rest) = None" using assms(2) by (cases rest) auto
  have b: "match_fold (LF # rest) = None" using assms(2)
    by (cases rest rule: match_fold.cases) auto
  show ?case using a b by simp
next
  case (Cons c l)
  then have c: "c \<noteq> LF" "LF \<notin> set l" by auto
  have "match_fold (c # l @ CR # LF # rest) = None"
  proof (cases l)
    case Nil then show ?thesis using c by simp
  next
    case (Cons d l')
    then show ?thesis using c by (cases l') auto
  qed
  then show ?case using Cons.IH [OF c(2)] by simp
qed

lemma unfold_ics_lines:
  assumes "\<forall>l \<in> set ls. LF \<notin> set l \<and> \<not> startswith l '' '' \<and> \<not> startswith l [TAB]"
  shows "unfold_ics (lines_text ls) = lines_text ls"
  using assms
proof (induction ls)
  case Nil then show ?case by (simp add: unfold_ics_def)
next
  case (Cons l ls)
  then have l: "LF \<notin> set l" and IH: "re_sub match_fold [] (lines_text ls) = lines_text ls"
    by (simp_all add: unfold_ics_def)
  have "lines_text ls = [] \<or> (hd (lines_text ls) \<noteq> CHR '' '' \<and> hd (lines_text ls) \<noteq> TAB)"
  proof (cases ls)
    case Nil then show ?thesis by simp
  next
    case (Cons l' ls')
    with Cons.prems have "\<not> startswith l' '' ''" "\<not> startswith l' [TAB]" by simp_all
    then show ?thesis unfolding Cons by (cases l') auto
  qed
  from re_sub_fold_line [OF l this] IH show ?case by (simp add: unfold_ics_def)
qed

subsection \<open>Searching a field in a text made of lines\<close>

lemma startswith_append_CR:
  assumes "CR \<notin> set f" "startswith (l @ CR # rest) f"
  shows "startswith l f"
  using assms by (induction l f rule: startswith.induct) auto

lemma match_field_no_prefix: "\<not> startswith s f \<Longrightarrow> match_field f s = None"
  by (simp add: match_field_def)

lemma search_field_inside_line:
  assumes "LF \<notin> set l"
  shows "search_field f False (l @ CR # LF # rest) = search_field f True rest"
  using assms
proof (induction l)
  case Nil then show ?case by simp
next
  case (Cons a l)
  then have "(a = LF) = False" by auto
  with Cons show ?case by simp
qed

lemma search_field_skip_line:
  assumes "CR \<notin> set f" "LF \<notin> set l" "\<not> startswith l f"
  shows "search_field f True (l @ CR # LF # rest) = search_field f True rest"
proof -
  have m: "match_field f (l @ CR # LF # rest) = None"
    using assms(1,3) startswith_append_CR by (intro match_field_no_prefix) blast
  show ?thesis
  proof (cases l)
    case Nil
    then show ?thesis using m by simp
  next
    case (Cons c l')
    with assms(2) have "c \<noteq> LF" "LF \<notin> set l'" by auto
    then show ?thesis using m search_field_inside_line [of l' f rest] unfolding Cons by simp
  qed
qed

lemma search_field_skip_lines:
  assumes "CR \<notin> set f" "\<forall>l \<in> set pre. LF \<notin> set l \<and> \<not> startswith l f"
  shows "search_field f True (lines_text pre @ rest) = search_field f True rest"
  using assms(2) by (induction pre) (simp_all add: search_field_skip_line [OF assms(1)])

lemma startswith_self_append: "startswith (f @ r) f"
  by (induction f) simp_all

lemma takeWhile_line: "LF \<notin> set v \<Longrightarrow> takeWhile (\<lambda>x. x \<noteq> LF) (v @ CR # LF # rest) = v @ [CR]"
  by (induction v) auto

lemma search_field_hit:
  assumes "f \<noteq> []" "LF \<notin> set v"
  shows "search_field f True ((f @ CHR '':'' # v) @ CR # LF # rest) = Some (v @ [CR])"
proof -
  have "match_field f (f @ CHR '':'' # v @ CR # LF # rest) = Some (v @ [CR])"
    using assms(2) by (simp add: match_field_def startswith_self_append takeWhile_line)
  moreover obtain c f' where "f = c # f'" using assms(1) by (cases f) auto
  ultimately show ?thesis by simp
qed

lemma search_field_none:
  assumes "f \<noteq> []" "CR \<notin> set f" "\<forall>l \<in> set ls. LF \<notin> set l \<and> \<not> startswith l f"
  shows "search_field f True (lines_text ls) = None"
proof -
  have "search_field f True (lines_text ls @ []) = search_field f True []"
    using assms(2,3) by (rule search_field_skip_lines)
  moreover have "match_field f [] = None"
    using assms(1) by (cases f) (simp_all add: match_field_def)
  ultimately show ?thesis by simp
qed

lemma digit_char_mem: "n < 10 \<Longrightarrow> digit_char n \<in> set ''0123456789''"
  unfolding digit_char_def by (rule nth_mem) simp

lemma str_nat_digits: "set (str_nat n) \<subseteq> set ''0123456789''"
proof (induction n rule: str_nat.induct)
  case (1 n)
  show ?case
  proof (cases "n < 10")
    case True
    then show ?thesis using digit_char_mem [of n] by (subst str_nat.simps) simp
  next
    case False
    have "n mod 10 < 10" by simp
    from digit_char_mem [OF this] 1 [OF False] False show ?thesis
      by (subst str_nat.simps) simp
  qed
qed

lemma str_int_no_LF: "LF \<notin> set (str_int i)"
  using str_nat_digits [of "nat i"] str_nat_digits [of "nat (- i)"]
  by (auto simp: str_int_def)

lemma zpad_no_LF: "LF \<notin> set (zpad w i)"
  using str_int_no_LF [of i] by (auto simp: zpad_def Let_def)

lemma dt_to_ics_no_LF: "LF \<notin> set (dt_to_ics t)"
  by (simp add: dt_to_ics_def Let_def zpad_no_LF str_int_no_LF)

lemma hex_digit_mem: "hex_digit n \<in> set ''0123456789abcdef''"
  unfolding hex_digit_def by (rule nth_mem) simp

lemma hex_digit_no_LF: "hex_digit n \<noteq> LF"
  using hex_digit_mem [of n] by auto

lemma hexdigest_no_LF: "LF \<notin> set (hexdigest bs)"
  by (induction bs) (simp_all add: hexdigest_def hex_digit_no_LF hex_digit_no_LF [symmetric])

lemma uid_no_LF: "LF \<notin> set (uid sha256 e)"
  using hexdigest_no_LF by (auto simp: uid_def dest: in_set_takeD)

subsection \<open>Trimmed strings\<close>

lemma strip_trimmed_append:
  assumes "s \<noteq> []" "\<not> is_space (hd s)" "\<not> is_space (last s)" "\<forall>c \<in> set ws. is_space c"
  shows "strip (s @ ws) = s"
proof -
  have 1: "dropWhile is_space (s @ ws) = s @ ws" using assms(1,2) by (cases s) simp_all
  have 2: "dropWhile is_space (rev ws @ rev s) = dropWhile is_space (rev s)"
    by (rule dropWhile_append2) (use assms(4) in auto)
  have 3: "dropWhile is_space (rev s) = rev s"
    using assms(1,3) by (cases s rule: rev_cases) simp_all
  show ?thesis by (simp add: strip_def 1 2 3)
qed

lemma strip_all_space: "\<forall>c \<in> set ws. is_space c \<Longrightarrow> strip ws = []"
proof -
  assume a: "\<forall>c \<in> set ws. is_space c"
  then have d: "dropWhile is_space ws = []" by simp
  show ?thesis unfolding strip_def d by simp
qed

lemma trimmed_ends:
  assumes "strip s = s" "s \<noteq> []"
  shows "\<not> is_space (hd s)" "\<not> is_space (last s)"
proof -
  let ?d = "dropWhile is_space s"
  have eq: "rev (dropWhile is_space (rev ?d)) = s" using assms(1) by (simp add: strip_def)
  have len: "length s \<le> length ?d"
  proof -
    have "length s = length (dropWhile is_space (rev ?d))" using eq by (metis length_rev)
    also have "\<dots> \<le> length (rev ?d)" by (rule length_dropWhile_le)
    finally show ?thesis by simp
  qed
  have "length ?d \<le> length s" by (rule length_dropWhile_le)
  with len have d: "?d = s"
    by (metis takeWhile_dropWhile_id append_eq_append_conv le_antisym append_Nil)
  then show "\<not> is_space (hd s)" using assms(2) by (metis hd_dropWhile)
  from eq d have "dropWhile is_space (rev s) = rev s" by (metis rev_rev_ident)
  then have "\<not> is_space (hd (rev s))" using assms(2) by (metis hd_dropWhile rev_is_Nil_conv)
  then show "\<not> is_space (last s)" using assms(2) by (simp add: hd_rev)
qed

lemma event_lines_split:
  "event_lines sha now e =
     [''BEGIN:VEVENT'', ''UID:'' @ uid sha e, ''DTSTAMP:'' @ dt_to_ics now,
      ''DTSTART:'' @ dt_to_ics (start e), ''DTEND:'' @ dt_to_ics (endt e),
      ''SUMMARY:'' @ ics_escape (title e)]
     @ url_lines e @ desc_lines e @ cat_lines e @ [''END:VEVENT'']"
  by (cases "truthy (url e)"; cases "desc_out e = []"; cases "categories e = []")
     (simp_all add: event_lines_def Let_def url_lines_def desc_lines_def cat_lines_def desc_out_def)

lemma ics_lines_single:
  "ics_lines sha now calendar_name [e] =
     head_lines sha now calendar_name e @ [''SUMMARY:'' @ ics_escape (title e)]
     @ url_lines e @ desc_lines e @ cat_lines e @ [''END:VEVENT'']"
  by (simp add: ics_lines_def event_lines_split head_lines_def)

lemma build_ics_lines_text:
  "build_ics sha now calendar_name events = lines_text (ics_lines sha now calendar_name events)"
  unfolding build_ics_def by (rule join_lines_text) (simp add: ics_lines_def)

lemma line_ok_head: "\<forall>l \<in> set (head_lines sha now calendar_name e). line_ok l"
  by (simp add: head_lines_def line_ok_def ics_escape_no_LF uid_no_LF dt_to_ics_no_LF)

lemma line_ok_summary: "line_ok (''SUMMARY:'' @ ics_escape t)"
  by (simp add: line_ok_def ics_escape_no_LF)

lemma line_ok_url: "\<forall>l \<in> set (url_lines e). line_ok l"
  by (simp add: url_lines_def line_ok_def ics_escape_no_LF)

lemma line_ok_desc: "\<forall>l \<in> set (desc_lines e). line_ok l"
  by (simp add: desc_lines_def line_ok_def ics_escape_no_LF)

lemma line_ok_cat: "\<forall>l \<in> set (cat_lines e). line_ok l"
  by (simp add: cat_lines_def line_ok_def ics_escape_no_LF)

lemma line_ok_event: "\<forall>l \<in> set (event_lines sha now e). line_ok l"
  using line_ok_url [of e] line_ok_desc [of e] line_ok_cat [of e] line_ok_summary [of "title e"]
  unfolding event_lines_split
  by (simp add: line_ok_def uid_no_LF dt_to_ics_no_LF ball_Un)

lemma line_ok_ics_lines: "\<forall>l \<in> set (ics_lines sha now calendar_name events). line_ok l"
proof -
  have "\<forall>l \<in> set (concat (map (event_lines sha now) (sort_key start events))). line_ok l"
    using line_ok_event by auto
  then show ?thesis
    by (simp add: ics_lines_def ball_Un) (simp add: line_ok_def ics_escape_no_LF)
qed

lemma unfold_ics_build_ics:
  "unfold_ics (build_ics sha now calendar_name events) = build_ics sha now calendar_name events"
  unfolding build_ics_lines_text
  using line_ok_ics_lines [of sha now calendar_name events]
  by (intro unfold_ics_lines) (simp add: line_ok_def)

lemma is_space_CR: "is_space CR" by (simp add: is_space_def)

lemma esc_char_ends:
  "esc_char c \<noteq> []"
  "\<not> is_space c \<Longrightarrow> \<not> is_space (hd (esc_char c))"
  "\<not> is_space c \<Longrightarrow> \<not> is_space (last (esc_char c))"
  by (auto simp: esc_char_def is_space_def)

lemma last_tokens:
  assumes "\<And>c. f c \<noteq> []" "s \<noteq> []"
  shows "last (concat (map f s)) = last (f (last s))"
  using assms(2)
proof (induction s rule: rev_nonempty_induct)
  case (single x) then show ?case by simp
next
  case (snoc x xs) then show ?case using assms(1) by simp
qed

lemma strip_escaped_line:
  assumes "strip s = s"
  shows "strip (ics_escape s @ [CR]) = ics_escape s"
proof (cases "s = []")
  case True
  then show ?thesis using strip_all_space [of "[CR]"] by (simp add: is_space_CR)
next
  case False
  note ends = trimmed_ends [OF assms False]
  have ne: "ics_escape s \<noteq> []"
    unfolding ics_escape_concat using hd_tokens(1) [of esc_char s] esc_char_ends(1) False by blast
  have h: "\<not> is_space (hd (ics_escape s))"
    unfolding ics_escape_concat hd_tokens(2) [of esc_char s, OF esc_char_ends(1) False]
    using ends(1) by (rule esc_char_ends(2))
  have l: "\<not> is_space (last (ics_escape s))"
    unfolding ics_escape_concat last_tokens [of esc_char s, OF esc_char_ends(1) False]
    using ends(2) by (rule esc_char_ends(3))
  show ?thesis using ne h l by (rule strip_trimmed_append) (simp add: is_space_CR)
qed

lemma decode_escaped_line:
  assumes "strip s = s" "\<not> contains s [BSL, CHR ''n'']"
  shows "unfold_ics_text (strip (ics_escape s @ [CR])) = s"
  using assms by (simp add: strip_escaped_line unfold_ics_text_ics_escape)

lemma extract_found:
  assumes f: "f \<noteq> []" "CR \<notin> set f"
    and ls: "ics_lines sha now calendar_name events = pre @ [f @ CHR '':'' # v] @ post"
    and pre: "\<forall>l \<in> set pre. \<not> startswith l f"
  shows "extract_ics_field (build_ics sha now calendar_name events) f = Some (strip (v @ [CR]))"
proof -
  have ok: "\<forall>l \<in> set (pre @ [f @ CHR '':'' # v] @ post). line_ok l"
    using line_ok_ics_lines [of sha now calendar_name events] unfolding ls .
  then have v: "LF \<notin> set v" and pre': "\<forall>l \<in> set pre. LF \<notin> set l \<and> \<not> startswith l f"
    using pre by (auto simp: line_ok_def)
  have "search_field f True (build_ics sha now calendar_name events)
      = search_field f True (lines_text pre @ ((f @ CHR '':'' # v) @ CR # LF # lines_text post))"
    by (simp add: build_ics_lines_text ls)
  also have "\<dots> = search_field f True ((f @ CHR '':'' # v) @ CR # LF # lines_text post)"
    using f(2) pre' by (rule search_field_skip_lines)
  also have "\<dots> = Some (v @ [CR])" using f(1) v by (rule search_field_hit)
  finally show ?thesis by (simp add: extract_ics_field_def unfold_ics_build_ics)
qed

lemma extract_absent:
  assumes f: "f \<noteq> []" "CR \<notin> set f"
    and ls: "\<forall>l \<in> set (ics_lines sha now calendar_name events). \<not> startswith l f"
  shows "extract_ics_field (build_ics sha now calendar_name events) f = None"
proof -
  have "\<forall>l \<in> set (ics_lines sha now calendar_name events). LF \<notin> set l \<and> \<not> startswith l f"
    using line_ok_ics_lines [of sha now calendar_name events] ls by (auto simp: line_ok_def)
  with f have "search_field f True (lines_text (ics_lines sha now calendar_name events)) = None"
    by (rule search_field_none)
  moreover have "unfold_ics (lines_text (ics_lines sha now calendar_name events))
      = lines_text (ics_lines sha now calendar_name events)"
    using unfold_ics_build_ics [of sha now calendar_name events]
    by (simp only: build_ics_lines_text)
  ultimately show ?thesis by (simp add: extract_ics_field_def build_ics_lines_text)
qed

lemma extract_summary:
  "extract_ics_field (build_ics sha now calendar_name [e]) ''SUMMARY''
     = Some (strip (ics_escape (title e) @ [CR]))"
proof (rule extract_found)
  show "ics_lines sha now calendar_name [e] =
      head_lines sha now calendar_name e @ [''SUMMARY'' @ CHR '':'' # ics_escape (title e)]
      @ (url_lines e @ desc_lines e @ cat_lines e @ [''END:VEVENT''])"
    by (simp add: ics_lines_single)
  show "\<forall>l \<in> set (head_lines sha now calendar_name e). \<not> startswith l ''SUMMARY''"
    by (simp add: head_lines_def)
qed simp_all

lemma extract_url:
  assumes "truthy (url e)"
  shows "extract_ics_field (build_ics sha now calendar_name [e]) ''URL''
     = Some (strip (ics_escape (or_empty (url e)) @ [CR]))"
proof (rule extract_found)
  show "ics_lines sha now calendar_name [e] =
      (head_lines sha now calendar_name e @ [''SUMMARY:'' @ ics_escape (title e)])
      @ [''URL'' @ CHR '':'' # ics_escape (or_empty (url e))]
      @ (desc_lines e @ cat_lines e @ [''END:VEVENT''])"
    using assms by (simp add: ics_lines_single url_lines_def)
  show "\<forall>l \<in> set (head_lines sha now calendar_name e @ [''SUMMARY:'' @ ics_escape (title e)]).
      \<not> startswith l ''URL''"
    by (simp add: head_lines_def)
qed simp_all

lemma extract_url_absent:
  assumes "\<not> truthy (url e)"
  shows "extract_ics_field (build_ics sha now calendar_name [e]) ''URL'' = None"
proof (rule extract_absent)
  show "\<forall>l \<in> set (ics_lines sha now calendar_name [e]). \<not> startswith l ''URL''"
    using assms
    by (auto simp: ics_lines_single head_lines_def url_lines_def desc_lines_def cat_lines_def)
qed simp_all

lemma extract_categories:
  assumes "categories e \<noteq> []"
  shows "extract_ics_field (build_ics sha now calendar_name [e]) ''CATEGORIES''
     = Some (strip (ics_escape (join '','' (categories e)) @ [CR]))"
proof (rule extract_found)
  show "ics_lines sha now calendar_name [e] =
      (head_lines sha now calendar_name e @ [''SUMMARY:'' @ ics_escape (title e)]
         @ url_lines e @ desc_lines e)
      @ [''CATEGORIES'' @ CHR '':'' # ics_escape (join '','' (categories e))]
      @ [''END:VEVENT'']"
    using assms by (simp add: ics_lines_single cat_lines_def)
  show "\<forall>l \<in> set (head_lines sha now calendar_name e @ [''SUMMARY:'' @ ics_escape (title e)]
         @ url_lines e @ desc_lines e). \<not> startswith l ''CATEGORIES''"
    by (auto simp: head_lines_def url_lines_def desc_lines_def)
qed simp_all

lemma extract_categories_absent:
  assumes "categories e = []"
  shows "extract_ics_field (build_ics sha now calendar_name [e]) ''CATEGORIES'' = None"
proof (rule extract_absent)
  show "\<forall>l \<in> set (ics_lines sha now calendar_name [e]). \<not> startswith l ''CATEGORIES''"
    using assms
    by (auto simp: ics_lines_single head_lines_def url_lines_def desc_lines_def cat_lines_def)
qed simp_all

lemma event_lines_last: "event_lines sha now e \<noteq> []" "last (event_lines sha now e) = ''END:VEVENT''"
  by (simp_all add: event_lines_split)

lemma last_concat_map:
  assumes "\<And>x. f x \<noteq> []" "xs \<noteq> []"
  shows "last (concat (map f xs)) = last (f (last xs))"
  using assms(2)
proof (induction xs rule: rev_nonempty_induct)
  case (single x) then show ?case by simp
next
  case (snoc x xs) then show ?case using assms(1) by simp
qed

lemma ics_lines_last:
  "last (ics_lines sha now calendar_name events)
     = (if events = [] then ''X-WR-TIMEZONE:UTC'' else ''END:VEVENT'')"
proof (cases "events = []")
  case True then show ?thesis by (simp add: ics_lines_def)
next
  case False
  then have ne: "sort_key start events \<noteq> []" by (metis length_sort length_0_conv)
  have c: "concat (map (event_lines sha now) (sort_key start events)) \<noteq> []"
    using ne event_lines_last(1) by (cases "sort_key start events") auto
  have "last (concat (map (event_lines sha now) (sort_key start events))) = ''END:VEVENT''"
    using last_concat_map [of "event_lines sha now", OF event_lines_last(1) ne]
    by (simp add: event_lines_last(2))
  with c False show ?thesis by (simp add: ics_lines_def)
qed

lemma event_lines_no_footer: "\<forall>l \<in> set (event_lines sha now e). \<not> startswith l ''END:VC''"
  by (auto simp: event_lines_split url_lines_def desc_lines_def cat_lines_def)

lemma ics_lines_no_footer: "''END:VCALENDAR'' \<notin> set (ics_lines sha now calendar_name events)"
proof -
  have "\<forall>l \<in> set (ics_lines sha now calendar_name events). \<not> startswith l ''END:VC''"
    using event_lines_no_footer by (auto simp: ics_lines_def)
  moreover have "startswith ''END:VCALENDAR'' ''END:VC''" by simp
  ultimately show ?thesis by blast
qed

text \<open>
  C3. The encoder ends every line with CR LF and no line contains a line feed, but the last
  line it writes is \<open>END:VEVENT\<close> (or \<open>X-WR-TIMEZONE:UTC\<close> for an empty list): the line
  \<open>END:VCALENDAR\<close> is never among the lines. The text for the calendar \<open>HAMCAL\<close> without
  events is the header alone.
\<close>

theorem build_ics_without_footer:
  "build_ics sha now calendar_name events
     = concat (map (\<lambda>l. l @ [CR, LF]) (ics_lines sha now calendar_name events))
   \<and> (\<forall>l \<in> set (ics_lines sha now calendar_name events). LF \<notin> set l)
   \<and> last (ics_lines sha now calendar_name events)
       = (if events = [] then ''X-WR-TIMEZONE:UTC'' else ''END:VEVENT'')
   \<and> ''END:VCALENDAR'' \<notin> set (ics_lines sha now calendar_name events)
   \<and> build_ics sha now ''HAMCAL'' []
       = ''BEGIN:VCALENDAR'' @ [CR, LF] @ ''VERSION:2.0'' @ [CR, LF]
         @ ''PRODID:-//HAMCAL//hamcal//EN'' @ [CR, LF] @ ''CALSCALE:GREGORIAN'' @ [CR, LF]
         @ ''X-WR-CALNAME:HAMCAL'' @ [CR, LF] @ ''X-WR-TIMEZONE:UTC'' @ [CR, LF]"
proof (intro conjI)
  show "build_ics sha now calendar_name events
     = concat (map (\<lambda>l. l @ [CR, LF]) (ics_lines sha now calendar_name events))"
    by (simp add: build_ics_lines_text lines_text_def)
  show "\<forall>l \<in> set (ics_lines sha now calendar_name events). LF \<notin> set l"
    using line_ok_ics_lines [of sha now calendar_name events] by (simp add: line_ok_def)
  show "last (ics_lines sha now calendar_name events)
       = (if events = [] then ''X-WR-TIMEZONE:UTC'' else ''END:VEVENT'')"
    by (rule ics_lines_last)
  show "''END:VCALENDAR'' \<notin> set (ics_lines sha now calendar_name events)"
    by (rule ics_lines_no_footer)
  have "ics_escape ''HAMCAL'' = ''HAMCAL''" by code_simp
  then show "build_ics sha now ''HAMCAL'' []
       = ''BEGIN:VCALENDAR'' @ [CR, LF] @ ''VERSION:2.0'' @ [CR, LF]
         @ ''PRODID:-//HAMCAL//hamcal//EN'' @ [CR, LF] @ ''CALSCALE:GREGORIAN'' @ [CR, LF]
         @ ''X-WR-CALNAME:HAMCAL'' @ [CR, LF] @ ''X-WR-TIMEZONE:UTC'' @ [CR, LF]"
    by (simp add: build_ics_def ics_lines_def)
qed

theorem build_ics_without_footer_witness:
  "last (ics_lines (\<lambda>s. replicate 32 171) 0 ''HAMCAL''
      [\<lparr>title = ''Sprint'', start = 0, endt = 1, url = None, description = None,
        categories = [''contest''], source = ''wa7bnm-gcal''\<rparr>]) = ''END:VEVENT''
   \<and> last (ics_lines (\<lambda>s. replicate 32 171) 0 ''HAMCAL'' []) = ''X-WR-TIMEZONE:UTC''"
  using build_ics_without_footer [of "\<lambda>s. replicate 32 171" 0 "''HAMCAL''"
      "[\<lparr>title = ''Sprint'', start = 0, endt = 1, url = None, description = None,
        categories = [''contest''], source = ''wa7bnm-gcal''\<rparr>]"]
    build_ics_without_footer [of "\<lambda>s. replicate 32 171" 0 "''HAMCAL''" "[]"]
  by simp

text \<open>
  Decoding is not a left inverse of escaping: a backslash followed by the letter n does not
  come back, and neither does a text that begins with a space.
\<close>

theorem unescape_not_left_inverse:
  "unfold_ics_text (ics_escape [BSL, CHR ''n'']) \<noteq> [BSL, CHR ''n'']
   \<and> unfold_ics_text (ics_escape '' CQ'') \<noteq> '' CQ''"
proof -
  have "unfold_ics_text (ics_escape [BSL, CHR ''n'']) = [BSL]" by code_simp
  moreover have "unfold_ics_text (ics_escape '' CQ'') = ''CQ''" by code_simp
  ultimately show ?thesis by simp
qed

text \<open>
  C4 (amended). For a text in which no backslash is followed by the letter n, decoding the
  escaped text gives the text stripped of the whitespace at its ends. For an event encoded
  alone, extracting and decoding gives back the title, the link and the comma-joined
  categories whenever each of them has no whitespace at its ends and no backslash followed by
  n; an absent or empty link and an empty category list are found absent.
\<close>

theorem ics_round_trip:
  "(\<not> contains s [BSL, CHR ''n''] \<longrightarrow> unfold_ics_text (ics_escape s) = strip s)
   \<and> (strip (title e) = title e \<and> \<not> contains (title e) [BSL, CHR ''n''] \<longrightarrow>
        map_option unfold_ics_text
          (extract_ics_field (build_ics sha now calendar_name [e]) ''SUMMARY'') = Some (title e))
   \<and> (url e = Some u \<and> u \<noteq> [] \<and> strip u = u \<and> \<not> contains u [BSL, CHR ''n''] \<longrightarrow>
        map_option unfold_ics_text
          (extract_ics_field (build_ics sha now calendar_name [e]) ''URL'') = Some u)
   \<and> (url e = None \<or> url e = Some [] \<longrightarrow>
        extract_ics_field (build_ics sha now calendar_name [e]) ''URL'' = None)
   \<and> (categories e \<noteq> [] \<and> strip (join '','' (categories e)) = join '','' (categories e)
        \<and> \<not> contains (join '','' (categories e)) [BSL, CHR ''n''] \<longrightarrow>
        map_option unfold_ics_text
          (extract_ics_field (build_ics sha now calendar_name [e]) ''CATEGORIES'')
          = Some (join '','' (categories e)))
   \<and> (categories e = [] \<longrightarrow>
        extract_ics_field (build_ics sha now calendar_name [e]) ''CATEGORIES'' = None)"
proof (intro conjI impI)
  assume "\<not> contains s [BSL, CHR ''n'']"
  then show "unfold_ics_text (ics_escape s) = strip s" by (rule unfold_ics_text_ics_escape)
next
  assume "strip (title e) = title e \<and> \<not> contains (title e) [BSL, CHR ''n'']"
  then show "map_option unfold_ics_text
      (extract_ics_field (build_ics sha now calendar_name [e]) ''SUMMARY'') = Some (title e)"
    by (simp add: extract_summary decode_escaped_line)
next
  assume a: "url e = Some u \<and> u \<noteq> [] \<and> strip u = u \<and> \<not> contains u [BSL, CHR ''n'']"
  then have "truthy (url e)" "or_empty (url e) = u" by (simp_all add: truthy_def or_empty_def)
  with a show "map_option unfold_ics_text
      (extract_ics_field (build_ics sha now calendar_name [e]) ''URL'') = Some u"
    by (simp add: extract_url decode_escaped_line)
next
  assume "url e = None \<or> url e = Some []"
  then have "\<not> truthy (url e)" by (auto simp: truthy_def)
  then show "extract_ics_field (build_ics sha now calendar_name [e]) ''URL'' = None"
    by (rule extract_url_absent)
next
  assume "categories e \<noteq> [] \<and> strip (join '','' (categories e)) = join '','' (categories e)
        \<and> \<not> contains (join '','' (categories e)) [BSL, CHR ''n'']"
  then show "map_option unfold_ics_text
      (extract_ics_field (build_ics sha now calendar_name [e]) ''CATEGORIES'')
      = Some (join '','' (categories e))"
    by (simp add: extract_categories decode_escaped_line)
next
  assume "categories e = []"
  then show "extract_ics_field (build_ics sha now calendar_name [e]) ''CATEGORIES'' = None"
    by (rule extract_categories_absent)
qed

theorem ics_round_trip_witness:
  "unfold_ics_text (ics_escape ''CQ WW, CW; 48h'') = ''CQ WW, CW; 48h''
   \<and> map_option unfold_ics_text
        (extract_ics_field
           (build_ics (\<lambda>s. replicate 32 171) 0 ''HAMCAL''
              [\<lparr>title = ''CQ WW, CW; 48h'', start = 0, endt = 1, url = Some ''https://cqww.com/'',
                description = None, categories = [''contest'', ''cw''], source = ''wa7bnm-gcal''\<rparr>])
           ''SUMMARY'') = Some ''CQ WW, CW; 48h''
   \<and> map_option unfold_ics_text
        (extract_ics_field
           (build_ics (\<lambda>s. replicate 32 171) 0 ''HAMCAL''
              [\<lparr>title = ''CQ WW, CW; 48h'', start = 0, endt = 1, url = Some ''https://cqww.com/'',
                description = None, categories = [''contest'', ''cw''], source = ''wa7bnm-gcal''\<rparr>])
           ''URL'') = Some ''https://cqww.com/''
   \<and> map_option unfold_ics_text
        (extract_ics_field
           (build_ics (\<lambda>s. replicate 32 171) 0 ''HAMCAL''
              [\<lparr>title = ''CQ WW, CW; 48h'', start = 0, endt = 1, url = Some ''https://cqww.com/'',
                description = None, categories = [''contest'', ''cw''], source = ''wa7bnm-gcal''\<rparr>])
           ''CATEGORIES'') = Some ''contest,cw''"
proof -
  have s1: "strip ''CQ WW, CW; 48h'' = ''CQ WW, CW; 48h''" by code_simp
  have s2: "strip ''https://cqww.com/'' = ''https://cqww.com/''" by code_simp
  have s3: "strip ''contest,cw'' = ''contest,cw''" by code_simp
  have c1: "\<not> contains ''CQ WW, CW; 48h'' [BSL, CHR ''n'']" by code_simp
  have c2: "\<not> contains ''https://cqww.com/'' [BSL, CHR ''n'']" by code_simp
  have c3: "\<not> contains ''contest,cw'' [BSL, CHR ''n'']" by code_simp
  show ?thesis
    using ics_round_trip [where s = "''CQ WW, CW; 48h''" and u = "''https://cqww.com/''"
        and sha = "\<lambda>s. replicate 32 171" and now = 0 and calendar_name = "''HAMCAL''"
        and e = "\<lparr>title = ''CQ WW, CW; 48h'', start = 0, endt = 1, url = Some ''https://cqww.com/'',
                description = None, categories = [''contest'', ''cw''], source = ''wa7bnm-gcal''\<rparr>"]
      s1 s2 s3 c1 c2 c3
    by simp
qed

section \<open>Missing fields in a block of the ICS feed\<close>











section \<open>What the markup stripping removes\<close>

lemma startswith_set: "startswith s p \<Longrightarrow> set p \<subseteq> set s"
  by (induction s p rule: startswith.induct) auto

lemma find_sub_set: "find_sub pat s = Some j \<Longrightarrow> set pat \<subseteq> set s"
proof (induction s arbitrary: j)
  case Nil then show ?case by (simp split: if_splits)
next
  case (Cons c cs)
  show ?case
  proof (cases "startswith (c # cs) pat")
    case True then show ?thesis by (rule startswith_set)
  next
    case False
    with Cons.prems obtain i where "find_sub pat cs = Some i" by (auto split: option.splits)
    from Cons.IH [OF this] show ?thesis by auto
  qed
qed

lemma match_script_backslash:
  assumes "match_script s = Some n"
  shows "BSL \<in> set s"
proof -
  from assms have "\<exists>r0 m j. s = CHR ''<'' # r0
      \<and> find_sub (''</'' @ [BSL] @ ''1>'') (drop m r0) = Some j"
    by (auto simp: match_script_def Let_def split: list.splits if_splits option.splits)
  then obtain r0 m j where s: "s = CHR ''<'' # r0"
    and j: "find_sub (''</'' @ [BSL] @ ''1>'') (drop m r0) = Some j" by blast
  from find_sub_set [OF j] have "BSL \<in> set (drop m r0)" by simp
  then have "BSL \<in> set r0" by (rule in_set_dropD)
  then show ?thesis by (simp add: s)
qed

lemma match_br_backslash:
  assumes "match_br s = Some n"
  shows "BSL \<in> set s"
proof -
  from assms have "startswith s (''<br'' @ [BSL])"
    by (simp add: match_br_def split: if_splits)
  from startswith_set [OF this] show ?thesis by simp
qed

lemma re_sub_no_match:
  assumes "\<And>t n. m t = Some n \<Longrightarrow> BSL \<in> set t" "BSL \<notin> set s"
  shows "re_sub m rep s = s"
  using assms(2)
proof (induction s)
  case Nil then show ?case by simp
next
  case (Cons c cs)
  have "m (c # cs) = None"
  proof (cases "m (c # cs)")
    case None then show ?thesis .
  next
    case (Some n)
    from assms(1) [OF this] Cons.prems show ?thesis by simp
  qed
  with Cons show ?case by simp
qed

text \<open>
  C8. On a text without backslash the first two substitutions of \<open>strip_html\<close> change
  nothing: what is left is the replacement of \<open></p>\<close> by a line feed, the removal of the
  tags and the decoding of entities. The content of a script or style element stays in the
  output, and \<open><br>\<close> is removed like any tag instead of becoming a line feed.
\<close>

theorem strip_html_keeps_script_text:
  "(BSL \<notin> set h \<longrightarrow>
      strip_html entities h
        = html_unescape entities (re_sub match_tag [] (re_sub match_p_close [LF] h)))
   \<and> strip_html entities ''<script>alert(1)</script>ok'' = ''alert(1)ok''
   \<and> strip_html entities ''<style>p{}</style>'' = ''p{}''
   \<and> strip_html entities ''a<br>b<br/>c'' = ''abc''"
proof (intro conjI impI)
  assume h: "BSL \<notin> set h"
  have 1: "re_sub match_script [] h = h"
    using match_script_backslash h by (rule re_sub_no_match)
  have 2: "re_sub match_br [LF] h = h"
    using match_br_backslash h by (rule re_sub_no_match)
  show "strip_html entities h
        = html_unescape entities (re_sub match_tag [] (re_sub match_p_close [LF] h))"
    by (simp add: strip_html_def Let_def 1 2)
next
  have "re_sub match_tag [] (re_sub match_p_close [LF] (re_sub match_br [LF]
          (re_sub match_script [] ''<script>alert(1)</script>ok''))) = ''alert(1)ok''"
    by code_simp
  then show "strip_html entities ''<script>alert(1)</script>ok'' = ''alert(1)ok''"
    by (simp add: strip_html_def Let_def html_unescape_def)
next
  have "re_sub match_tag [] (re_sub match_p_close [LF] (re_sub match_br [LF]
          (re_sub match_script [] ''<style>p{}</style>''))) = ''p{}''"
    by code_simp
  then show "strip_html entities ''<style>p{}</style>'' = ''p{}''"
    by (simp add: strip_html_def Let_def html_unescape_def)
next
  have "re_sub match_tag [] (re_sub match_p_close [LF] (re_sub match_br [LF]
          (re_sub match_script [] ''a<br>b<br/>c''))) = ''abc''"
    by code_simp
  then show "strip_html entities ''a<br>b<br/>c'' = ''abc''"
    by (simp add: strip_html_def Let_def html_unescape_def)
qed

theorem strip_html_keeps_script_text_witness:
  "strip_html (\<lambda>s. s) ''<p>Sprint</p><script>x=1</script>''
     = html_unescape (\<lambda>s. s) (re_sub match_tag [] (re_sub match_p_close [LF]
          ''<p>Sprint</p><script>x=1</script>''))
   \<and> strip_html (\<lambda>s. s) ''<p>Sprint</p><script>x=1</script>'' = ''Sprint'' @ [LF] @ ''x=1''"
proof -
  have n: "BSL \<notin> set ''<p>Sprint</p><script>x=1</script>''" by simp
  have e: "html_unescape (\<lambda>s. s) (re_sub match_tag [] (re_sub match_p_close [LF]
          ''<p>Sprint</p><script>x=1</script>'')) = ''Sprint'' @ [LF] @ ''x=1''"
    by code_simp
  from strip_html_keeps_script_text [where h = "''<p>Sprint</p><script>x=1</script>''"
      and entities = "\<lambda>s. s"] n
  have "strip_html (\<lambda>s. s) ''<p>Sprint</p><script>x=1</script>''
     = html_unescape (\<lambda>s. s) (re_sub match_tag [] (re_sub match_p_close [LF]
          ''<p>Sprint</p><script>x=1</script>''))" by blast
  with e show ?thesis by simp
qed

end
